theory Spec2Isabelle
  imports Main
begin

section \<open>Python lists, indexing and errors\<close>

text \<open>
  The maze of \<^verbatim>\<open>python_guide_3d659f.py\<close> keeps its grid as a Python list of
  row lists of one-character strings. Indexing a Python list with an index
  outside \<open>[-n, n)\<close> raises \<^verbatim>\<open>IndexError\<close>; a negative index inside that range
  counts from the end. A missing dictionary key raises \<^verbatim>\<open>KeyError\<close>.
\<close>

datatype error = IndexError | KeyError

definition py_index :: "'a list \<Rightarrow> int \<Rightarrow> nat option" where
  "py_index xs i =
     (let n = int (length xs)
      in if 0 \<le> i \<and> i < n then Some (nat i)
         else if - n \<le> i \<and> i < 0 then Some (nat (i + n))
         else None)"

definition py_get :: "'a list \<Rightarrow> int \<Rightarrow> error + 'a" where
  "py_get xs i = (case py_index xs i of None \<Rightarrow> Inl IndexError | Some k \<Rightarrow> Inr (xs ! k))"

definition py_set :: "'a list \<Rightarrow> int \<Rightarrow> 'a \<Rightarrow> error + 'a list" where
  "py_set xs i v = (case py_index xs i of None \<Rightarrow> Inl IndexError | Some k \<Rightarrow> Inr (xs[k := v]))"

text \<open>\<^verbatim>\<open>grid[r][c]\<close> and \<^verbatim>\<open>grid[r][c] = v\<close>. The rows are distinct list objects
  (the constructor builds each with its own comprehension), so a write to one
  row changes that row only.\<close>

definition grid_get :: "'a list list \<Rightarrow> int \<Rightarrow> int \<Rightarrow> error + 'a" where
  "grid_get g r c = (case py_get g r of Inl e \<Rightarrow> Inl e | Inr row \<Rightarrow> py_get row c)"

definition grid_set :: "'a list list \<Rightarrow> int \<Rightarrow> int \<Rightarrow> 'a \<Rightarrow> error + 'a list list" where
  "grid_set g r c v =
     (case py_index g r of
        None \<Rightarrow> Inl IndexError
      | Some k \<Rightarrow> (case py_set (g ! k) c v of
                     Inl e \<Rightarrow> Inl e
                   | Inr row' \<Rightarrow> Inr (g[k := row'])))"

section \<open>The maze object\<close>

type_synonym coord = "int \<times> int"

record maze =
  width :: int
  height :: int
  grid :: "char list list"
  start :: coord
  end_pos :: coord

text \<open>\<^verbatim>\<open>Maze.__init__\<close>: even dimensions are incremented, the grid is all walls.
  \<^verbatim>\<open>range(n)\<close> is empty for \<open>n \<le> 0\<close>, which is what \<open>nat\<close> gives.\<close>

definition Maze_init :: "int \<Rightarrow> int \<Rightarrow> maze" where
  "Maze_init width0 height0 =
     (let w = (if width0 mod 2 = 0 then width0 + 1 else width0);
          h = (if height0 mod 2 = 0 then height0 + 1 else height0)
      in \<lparr> width = w, height = h,
           grid = replicate (nat h) (replicate (nat w) CHR ''#''),
           start = (1, 1),
           end_pos = (h - 2, w - 2) \<rparr>)"

text \<open>\<^verbatim>\<open>Maze._is_valid\<close>\<close>

definition is_valid :: "maze \<Rightarrow> int \<Rightarrow> int \<Rightarrow> bool" where
  "is_valid m r c = (0 \<le> r \<and> r < height m \<and> 0 \<le> c \<and> c < width m)"

section \<open>Generation\<close>

text \<open>
  The only outside input of \<^verbatim>\<open>generate\<close> is \<^verbatim>\<open>random.choice\<close>. The random
  source is a sequence \<open>rnd\<close> of natural numbers; the \<open>k\<close>-th call of
  \<^verbatim>\<open>random.choice(xs)\<close> on a non-empty list returns \<open>xs ! (rnd k mod length xs)\<close>,
  so every element of \<open>xs\<close> is a possible outcome.
\<close>

definition gen_directions :: "(int \<times> int) list" where
  "gen_directions = [(0, 2), (0, -2), (2, 0), (-2, 0)]"

text \<open>The \<^verbatim>\<open>for dr, dc in directions\<close> loop of \<^verbatim>\<open>generate\<close> collecting
  \<^verbatim>\<open>unvisited_neighbors\<close>; \<^verbatim>\<open>and\<close> evaluates the grid read only for a valid
  coordinate.\<close>

fun unvisited_neighbors :: "maze \<Rightarrow> coord \<Rightarrow> (int \<times> int) list \<Rightarrow> error + coord list" where
  "unvisited_neighbors m cur [] = Inr []"
| "unvisited_neighbors m cur (d # ds) =
     (let neighbor_r = fst cur + fst d; neighbor_c = snd cur + snd d
      in if is_valid m neighbor_r neighbor_c then
           (case grid_get (grid m) neighbor_r neighbor_c of
              Inl e \<Rightarrow> Inl e
            | Inr ch \<Rightarrow>
                (case unvisited_neighbors m cur ds of
                   Inl e \<Rightarrow> Inl e
                 | Inr ns \<Rightarrow> Inr (if ch = CHR ''#'' then (neighbor_r, neighbor_c) # ns else ns)))
         else unvisited_neighbors m cur ds)"

definition random_choice :: "(nat \<Rightarrow> nat) \<Rightarrow> nat \<Rightarrow> 'a list \<Rightarrow> 'a" where
  "random_choice rnd k xs = xs ! (rnd k mod length xs)"

text \<open>The carving of one step: the chosen neighbour, then the wall between.\<close>

definition carve :: "maze \<Rightarrow> coord \<Rightarrow> coord \<Rightarrow> error + maze" where
  "carve m cur nxt =
     (case grid_set (grid m) (fst nxt) (snd nxt) CHR '' '' of
        Inl e \<Rightarrow> Inl e
      | Inr g1 \<Rightarrow>
          (let wall_r = fst cur + (fst nxt - fst cur) div 2;
               wall_c = snd cur + (snd nxt - snd cur) div 2
           in case grid_set g1 wall_r wall_c CHR '' '' of
                Inl e \<Rightarrow> Inl e
              | Inr g2 \<Rightarrow> Inr (m\<lparr>grid := g2\<rparr>)))"

definition count_walls :: "char list list \<Rightarrow> nat" where
  "count_walls g = sum_list (map (\<lambda>row. length (filter (\<lambda>ch. ch = CHR ''#'') row)) g)"

subsection \<open>Termination of the carving loop\<close>

text \<open>Every carving step turns at least one wall into a passage, every other
  step pops the stack.\<close>

lemma py_index_lt: "py_index xs i = Some k \<Longrightarrow> k < length xs"
  by (auto simp: py_index_def Let_def split: if_splits)

lemma count_walls_update:
  "k < length g \<Longrightarrow> count_walls (g[k := row]) + length (filter (\<lambda>ch. ch = CHR ''#'') (g ! k))
      = count_walls g + length (filter (\<lambda>ch. ch = CHR ''#'') row)"
  unfolding count_walls_def
proof (induction g arbitrary: k)
  case Nil then show ?case by simp
next
  case (Cons a g) then show ?case by (cases k) auto
qed

lemma filter_update_count:
  "k < length xs \<Longrightarrow>
   length (filter P (xs[k := v])) + (if P (xs ! k) then 1 else 0)
     = length (filter P xs) + (if P v then 1 else 0)"
proof (induction xs arbitrary: k)
  case Nil then show ?case by simp
next
  case (Cons a xs)
  show ?case
  proof (cases k)
    case 0 then show ?thesis by simp
  next
    case (Suc j)
    with Cons.prems have "j < length xs" by simp
    from Cons.IH[OF this] Suc show ?thesis by simp
  qed
qed

lemma filter_update_le:
  "v \<noteq> x \<Longrightarrow> length (filter (\<lambda>ch. ch = x) (xs[k := v])) \<le> length (filter (\<lambda>ch. ch = x) xs)"
proof (cases "k < length xs")
  case True
  assume "v \<noteq> x"
  with filter_update_count[OF True, of "\<lambda>ch. ch = x" v] show ?thesis
    by (simp split: if_splits)
next
  case False then show ?thesis by (simp add: list_update_beyond)
qed

lemma filter_update_lt:
  "v \<noteq> x \<Longrightarrow> k < length xs \<Longrightarrow> xs ! k = x \<Longrightarrow>
   length (filter (\<lambda>ch. ch = x) (xs[k := v])) < length (filter (\<lambda>ch. ch = x) xs)"
  using filter_update_count[of k xs "\<lambda>ch. ch = x" v] by (simp split: if_splits)

lemma grid_set_walls_le:
  assumes "grid_set g r c CHR '' '' = Inr g'"
  shows "count_walls g' \<le> count_walls g"
proof -
  from assms obtain k j where k: "py_index g r = Some k" and j: "py_index (g ! k) c = Some j"
    and g': "g' = g[k := (g ! k)[j := CHR '' '']]"
    by (auto simp: grid_set_def py_set_def split: option.splits sum.splits)
  have "k < length g" using k by (rule py_index_lt)
  from count_walls_update[OF this, of "(g ! k)[j := CHR '' '']"]
    filter_update_le[of "CHR '' ''" "CHR ''#''" "g ! k" j]
  show ?thesis unfolding g' by simp
qed

lemma grid_set_walls_lt:
  assumes "grid_set g r c CHR '' '' = Inr g'" and "grid_get g r c = Inr CHR ''#''"
  shows "count_walls g' < count_walls g"
proof -
  from assms obtain k j where k: "py_index g r = Some k" and j: "py_index (g ! k) c = Some j"
    and g': "g' = g[k := (g ! k)[j := CHR '' '']]"
    by (auto simp: grid_set_def py_set_def split: option.splits sum.splits)
  have kl: "k < length g" using k by (rule py_index_lt)
  have jl: "j < length (g ! k)" using j by (rule py_index_lt)
  have "g ! k ! j = CHR ''#''" using assms(2) k j
    by (auto simp: grid_get_def py_get_def split: option.splits sum.splits)
  from count_walls_update[OF kl, of "(g ! k)[j := CHR '' '']"]
    filter_update_lt[of "CHR '' ''" "CHR ''#''" j "g ! k", OF _ jl this]
  show ?thesis unfolding g' by simp
qed

lemma unvisited_neighbors_wall:
  "unvisited_neighbors m cur ds = Inr ns \<Longrightarrow> n \<in> set ns \<Longrightarrow>
     grid_get (grid m) (fst n) (snd n) = Inr CHR ''#'' \<and> is_valid m (fst n) (snd n)
     \<and> (\<exists>d \<in> set ds. n = (fst cur + fst d, snd cur + snd d))"
proof (induction ds arbitrary: ns)
  case Nil then show ?case by simp
next
  case (Cons d ds)
  then show ?case
    by (auto simp: Let_def split: if_splits sum.splits)
qed

lemma carve_walls_lt:
  assumes "carve m cur nxt = Inr m'" and "grid_get (grid m) (fst nxt) (snd nxt) = Inr CHR ''#''"
  shows "count_walls (grid m') < count_walls (grid m)"
proof -
  from assms(1) obtain g1 g2 where g1: "grid_set (grid m) (fst nxt) (snd nxt) CHR '' '' = Inr g1"
    and g2: "grid_set g1 (fst cur + (fst nxt - fst cur) div 2) (snd cur + (snd nxt - snd cur) div 2) CHR '' '' = Inr g2"
    and m': "m' = m\<lparr>grid := g2\<rparr>"
    by (auto simp: carve_def Let_def split: sum.splits)
  from grid_set_walls_lt[OF g1 assms(2)] grid_set_walls_le[OF g2] show ?thesis
    by (simp add: m')
qed

text \<open>The \<^verbatim>\<open>while stack\<close> loop. The stack is a list whose head is the top
  (\<^verbatim>\<open>stack[-1]\<close>); \<open>k\<close> counts the calls of \<^verbatim>\<open>random.choice\<close> so far.\<close>

function gen_loop :: "(nat \<Rightarrow> nat) \<Rightarrow> nat \<Rightarrow> maze \<Rightarrow> coord list \<Rightarrow> error + maze" where
  "gen_loop rnd k m [] = Inr m"
| "gen_loop rnd k m (cur # rest) =
     (case unvisited_neighbors m cur gen_directions of
        Inl e \<Rightarrow> Inl e
      | Inr ns \<Rightarrow>
          if ns \<noteq> [] then
            (let nxt = random_choice rnd k ns
             in case carve m cur nxt of
                  Inl e \<Rightarrow> Inl e
                | Inr m' \<Rightarrow> gen_loop rnd (Suc k) m' (nxt # cur # rest))
          else gen_loop rnd k m rest)"
  by pat_completeness auto
termination
proof (relation "measure (\<lambda>(rnd, k, m, stack). 2 * count_walls (grid m) + length stack)", goal_cases)
  case 1 show ?case by simp
next
  case (2 rnd k m cur rest ns nxt m')
  have "nxt \<in> set ns" using 2 by (simp add: random_choice_def)
  with 2 have "grid_get (grid m) (fst nxt) (snd nxt) = Inr CHR ''#''"
    by (auto dest: unvisited_neighbors_wall)
  with 2 have "count_walls (grid m') < count_walls (grid m)" by (auto intro: carve_walls_lt)
  then show ?case by simp
next
  case 3 then show ?case by simp
qed


text \<open>\<^verbatim>\<open>Maze.generate\<close>\<close>

definition generate :: "(nat \<Rightarrow> nat) \<Rightarrow> maze \<Rightarrow> error + maze" where
  "generate rnd m =
     (let current_r = fst (start m); current_c = snd (start m)
      in case grid_set (grid m) current_r current_c CHR '' '' of
           Inl e \<Rightarrow> Inl e
         | Inr g0 \<Rightarrow>
             (case gen_loop rnd 0 (m\<lparr>grid := g0\<rparr>) [(current_r, current_c)] of
                Inl e \<Rightarrow> Inl e
              | Inr m1 \<Rightarrow>
                  (case grid_set (grid m1) (fst (start m1)) (snd (start m1)) CHR ''S'' of
                     Inl e \<Rightarrow> Inl e
                   | Inr g2 \<Rightarrow>
                       (case grid_set g2 (fst (end_pos m1)) (snd (end_pos m1)) CHR ''E'' of
                          Inl e \<Rightarrow> Inl e
                        | Inr g3 \<Rightarrow> Inr (m1\<lparr>grid := g3\<rparr>)))))"

text \<open>A random source that always picks the first candidate.\<close>

definition first_choice :: "nat \<Rightarrow> nat" where
  "first_choice k = 0"

section \<open>Solving\<close>

record bfs_state =
  queue :: "coord list"
  parent_map :: "coord \<rightharpoonup> coord option"
  visited :: "coord set"

definition solve_directions :: "(int \<times> int) list" where
  "solve_directions = [(0, 1), (0, -1), (1, 0), (-1, 0)]"

text \<open>The \<^verbatim>\<open>for dr, dc in directions\<close> loop of \<^verbatim>\<open>solve\<close>.\<close>

fun visit_neighbors :: "maze \<Rightarrow> coord \<Rightarrow> (int \<times> int) list \<Rightarrow> bfs_state \<Rightarrow> error + bfs_state" where
  "visit_neighbors m cur [] s = Inr s"
| "visit_neighbors m cur (d # ds) s =
     (let neighbor_r = fst cur + fst d; neighbor_c = snd cur + snd d
      in if is_valid m neighbor_r neighbor_c then
           (case grid_get (grid m) neighbor_r neighbor_c of
              Inl e \<Rightarrow> Inl e
            | Inr ch \<Rightarrow>
                if ch \<noteq> CHR ''#'' \<and> (neighbor_r, neighbor_c) \<notin> visited s then
                  visit_neighbors m cur ds
                    (s\<lparr> visited := insert (neighbor_r, neighbor_c) (visited s),
                        queue := queue s @ [(neighbor_r, neighbor_c)],
                        parent_map := (parent_map s)((neighbor_r, neighbor_c) \<mapsto> Some cur) \<rparr>)
                else visit_neighbors m cur ds s)
         else visit_neighbors m cur ds s)"

definition unseen :: "maze \<Rightarrow> bfs_state \<Rightarrow> coord set" where
  "unseen m s = {p. is_valid m (fst p) (snd p)} - visited s"

lemma finite_valid: "finite {p. is_valid m (fst p) (snd p)}"
proof -
  have "{p. is_valid m (fst p) (snd p)} \<subseteq> {0..<height m} \<times> {0..<width m}"
    by (auto simp: is_valid_def)
  then show ?thesis by (rule finite_subset) simp
qed

lemma finite_unseen: "finite (unseen m s)"
  unfolding unseen_def using finite_valid by (rule finite_Diff)

lemma unseen_insert:
  assumes "is_valid m (fst p) (snd p)" and "p \<notin> visited s"
  shows "Suc (card (unseen m (s\<lparr>visited := insert p (visited s), queue := q, parent_map := pm\<rparr>)))
           = card (unseen m s)"
proof -
  have mem: "p \<in> unseen m s" using assms by (simp add: unseen_def)
  have "unseen m (s\<lparr>visited := insert p (visited s), queue := q, parent_map := pm\<rparr>) = unseen m s - {p}"
    by (auto simp: unseen_def)
  with card.remove[OF finite_unseen mem] show ?thesis
    by simp
qed

lemma visit_neighbors_measure:
  "visit_neighbors m cur ds s = Inr s' \<Longrightarrow>
     2 * card (unseen m s') + length (queue s') \<le> 2 * card (unseen m s) + length (queue s)"
proof (induction ds arbitrary: s)
  case Nil then show ?case by simp
next
  case (Cons d ds)
  let ?n = "(fst cur + fst d, snd cur + snd d)"
  show ?case
  proof (cases "is_valid m (fst ?n) (snd ?n) \<and> grid_get (grid m) (fst ?n) (snd ?n) \<noteq> Inr CHR ''#'' \<and> ?n \<notin> visited s")
    case True
    let ?s1 = "s\<lparr> visited := insert ?n (visited s), queue := queue s @ [?n],
                   parent_map := (parent_map s)(?n \<mapsto> Some cur) \<rparr>"
    from True Cons.prems have "visit_neighbors m cur ds ?s1 = Inr s'"
      by (auto simp: Let_def split: sum.splits if_splits)
    from Cons.IH[OF this]
      unseen_insert[where m = m and p = ?n and s = s and q = "queue s @ [?n]"
        and pm = "(parent_map s)(?n \<mapsto> Some cur)"] True
    show ?thesis by simp
  next
    case False
    with Cons.prems have "visit_neighbors m cur ds s = Inr s'"
      by (auto simp: Let_def split: sum.splits if_splits)
    from Cons.IH[OF this] show ?thesis .
  qed
qed

text \<open>The \<^verbatim>\<open>while queue\<close> loop; the result carries \<^verbatim>\<open>path_found\<close>.\<close>

function bfs_loop :: "maze \<Rightarrow> bfs_state \<Rightarrow> error + (bool \<times> bfs_state)" where
  "bfs_loop m s =
     (case queue s of
        [] \<Rightarrow> Inr (False, s)
      | cur # rest \<Rightarrow>
          if cur = end_pos m then Inr (True, s\<lparr>queue := rest\<rparr>)
          else (case visit_neighbors m cur solve_directions (s\<lparr>queue := rest\<rparr>) of
                  Inl e \<Rightarrow> Inl e
                | Inr s' \<Rightarrow> bfs_loop m s'))"
  by pat_completeness auto
termination
proof (relation "measure (\<lambda>(m, s). 2 * card (unseen m s) + length (queue s))", goal_cases)
  case 1 show ?case by simp
next
  case (2 m s cur rest s')
  have "unseen m (s\<lparr>queue := rest\<rparr>) = unseen m s" by (simp add: unseen_def)
  with visit_neighbors_measure[OF 2(3)] 2(1) show ?case by simp
qed

text \<open>The reconstruction loop \<^verbatim>\<open>while current is not None\<close>. It follows the
  dictionary for as long as it finds parents, so on an arbitrary dictionary it
  need not stop: \<open>None\<close> is "does not return".\<close>

partial_function (option) reconstruct ::
  "(coord \<rightharpoonup> coord option) \<Rightarrow> coord option \<Rightarrow> coord list \<Rightarrow> (error + coord list) option" where
  "reconstruct pm current path =
     (case current of
        None \<Rightarrow> Some (Inr path)
      | Some c \<Rightarrow>
          (case pm c of
             None \<Rightarrow> Some (Inl KeyError)
           | Some nxt \<Rightarrow> reconstruct pm nxt (path @ [c])))"

declare reconstruct.simps [code]

text \<open>\<^verbatim>\<open>Maze.solve\<close>: \<open>Some (Inr None)\<close> is the return value \<^verbatim>\<open>None\<close>,
  \<open>Some (Inr (Some p))\<close> a returned path.\<close>

definition solve :: "maze \<Rightarrow> (error + coord list option) option" where
  "solve m =
     (case bfs_loop m \<lparr> queue = [start m],
                        parent_map = [start m \<mapsto> None],
                        visited = {start m} \<rparr> of
        Inl e \<Rightarrow> Some (Inl e)
      | Inr (path_found, s) \<Rightarrow>
          if \<not> path_found then Some (Inr None)
          else (case reconstruct (parent_map s) (Some (end_pos m)) [] of
                  None \<Rightarrow> None
                | Some (Inl e) \<Rightarrow> Some (Inl e)
                | Some (Inr path) \<Rightarrow> Some (Inr (Some (rev path)))))"

section \<open>Display\<close>

text \<open>
  \<^verbatim>\<open>display\<close> copies the rows and writes into the copies. Whether the maze's
  own rows stay as they are depends on the copies being new objects, so here the
  rows live in a store: a list of row objects addressed by position, where a new
  object is appended at the end. \<^verbatim>\<open>[row[:] for row in self.grid]\<close> is
  \<open>copy_rows\<close>. The result is the final store, the lines printed, and the
  exception raised, if any.
\<close>

fun copy_rows :: "char list list \<Rightarrow> nat list \<Rightarrow> char list list \<times> nat list" where
  "copy_rows H [] = (H, [])"
| "copy_rows H (a # as) =
     (let (H', refs) = copy_rows (H @ [H ! a]) as in (H', length H # refs))"

fun overlay :: "coord \<Rightarrow> coord \<Rightarrow> nat list \<Rightarrow> coord list \<Rightarrow> char list list
                  \<Rightarrow> char list list \<times> error option" where
  "overlay st en refs [] H = (H, None)"
| "overlay st en refs (p # path) H =
     (if p \<noteq> st \<and> p \<noteq> en then
        (case py_get refs (fst p) of
           Inl e \<Rightarrow> (H, Some e)
         | Inr a \<Rightarrow>
             (case py_set (H ! a) (snd p) CHR ''o'' of
                Inl e \<Rightarrow> (H, Some e)
              | Inr row' \<Rightarrow> overlay st en refs path (H[a := row'])))
      else overlay st en refs path H)"

fun print_rows :: "char list list \<Rightarrow> nat list \<Rightarrow> nat list \<Rightarrow> string list \<times> error option" where
  "print_rows H refs [] = ([], None)"
| "print_rows H refs (r # rs) =
     (case py_get refs (int r) of
        Inl e \<Rightarrow> ([], Some e)
      | Inr a \<Rightarrow> (let (out, e) = print_rows H refs rs in (H ! a # out, e)))"

definition display_store ::
  "char list list \<Rightarrow> nat list \<Rightarrow> int \<Rightarrow> coord \<Rightarrow> coord \<Rightarrow> coord list option
     \<Rightarrow> char list list \<times> string list \<times> error option" where
  "display_store H grid_refs h st en path =
     (let (H1, display_grid) = copy_rows H grid_refs;
          (H2, raised) = (case path of
                            None \<Rightarrow> (H1, None)
                          | Some [] \<Rightarrow> (H1, None)
                          | Some p \<Rightarrow> overlay st en display_grid p H1)
      in case raised of
           Some e \<Rightarrow> (H2, [], Some e)
         | None \<Rightarrow> (let (out, e) = print_rows H2 display_grid [0..<nat h] in (H2, out, e)))"

text \<open>\<^verbatim>\<open>Maze.display\<close>, with the rows of \<^verbatim>\<open>self.grid\<close> as the objects
  \<open>0, 1, ...\<close> of the store.\<close>

definition display :: "maze \<Rightarrow> coord list option \<Rightarrow> char list list \<times> string list \<times> error option" where
  "display m path =
     display_store (grid m) [0..<length (grid m)] (height m) (start m) (end_pos m) path"

section \<open>The constructor\<close>

lemma Maze_init_simps:
  "width (Maze_init w h) = (if w mod 2 = 0 then w + 1 else w)"
  "height (Maze_init w h) = (if h mod 2 = 0 then h + 1 else h)"
  "grid (Maze_init w h) = replicate (nat (height (Maze_init w h))) (replicate (nat (width (Maze_init w h))) CHR ''#'')"
  "start (Maze_init w h) = (1, 1)"
  "end_pos (Maze_init w h) = (height (Maze_init w h) - 2, width (Maze_init w h) - 2)"
  by (simp_all add: Maze_init_def Let_def)

lemma grid_get_replicate:
  "0 \<le> r \<Longrightarrow> r < int n \<Longrightarrow> 0 \<le> c \<Longrightarrow> c < int k \<Longrightarrow>
     grid_get (replicate n (replicate k x)) r c = Inr x"
  by (simp add: grid_get_def py_get_def py_index_def)

text \<open>
  Claim C4. For positive \<open>width\<close> and \<open>height\<close> the constructor adds one to an
  even dimension and keeps an odd one, builds a grid of \<open>height\<close> rows of
  \<open>width\<close> cells that are all walls, and sets \<open>start = (1, 1)\<close> and
  \<open>end = (height - 2, width - 2)\<close>.
\<close>

theorem Maze_init_spec:
  assumes "0 < w" and "0 < h"
  shows "width (Maze_init w h) = (if even w then w + 1 else w)
       \<and> height (Maze_init w h) = (if even h then h + 1 else h)
       \<and> length (grid (Maze_init w h)) = nat (height (Maze_init w h))
       \<and> (\<forall>row \<in> set (grid (Maze_init w h)).
             length row = nat (width (Maze_init w h)) \<and> (\<forall>ch \<in> set row. ch = CHR ''#''))
       \<and> (\<forall>r c. is_valid (Maze_init w h) r c \<longrightarrow> grid_get (grid (Maze_init w h)) r c = Inr CHR ''#'')
       \<and> start (Maze_init w h) = (1, 1)
       \<and> end_pos (Maze_init w h) = (height (Maze_init w h) - 2, width (Maze_init w h) - 2)"
proof -
  have dims: "width (Maze_init w h) = (if even w then w + 1 else w)"
    "height (Maze_init w h) = (if even h then h + 1 else h)"
    unfolding even_iff_mod_2_eq_zero by (rule Maze_init_simps)+
  have len: "length (grid (Maze_init w h)) = nat (height (Maze_init w h))"
    by (simp add: Maze_init_simps(3))
  have rows: "\<forall>row \<in> set (grid (Maze_init w h)).
             length row = nat (width (Maze_init w h)) \<and> (\<forall>ch \<in> set row. ch = CHR ''#'')"
    unfolding Maze_init_simps(3) by auto
  have cells: "\<forall>r c. is_valid (Maze_init w h) r c \<longrightarrow> grid_get (grid (Maze_init w h)) r c = Inr CHR ''#''"
    unfolding Maze_init_simps(3) by (auto simp: is_valid_def intro!: grid_get_replicate)
  show ?thesis by (intro conjI dims len rows cells Maze_init_simps(4,5))
qed

theorem Maze_init_spec_witness:
  "(0::int) < 4 \<and> (0::int) < 3
   \<and> width (Maze_init 4 3) = 5 \<and> height (Maze_init 4 3) = 3
   \<and> grid_get (grid (Maze_init 4 3)) 2 4 = Inr CHR ''#''
   \<and> start (Maze_init 4 3) = (1, 1) \<and> end_pos (Maze_init 4 3) = (1, 3)"
proof -
  have v: "is_valid (Maze_init 4 3) 2 4" by (simp add: is_valid_def Maze_init_simps)
  from Maze_init_spec [of 4 3] v show ?thesis by simp
qed

section \<open>Cells of a well-formed maze\<close>

text \<open>The constructor makes \<open>height\<close> rows of \<open>width\<close> cells and no method changes
  the shape; \<open>wf_maze\<close> is that class invariant. \<open>put\<close> is what a successful
  \<^verbatim>\<open>grid[r][c] = v\<close> does to the maze.\<close>

definition wf_maze :: "maze \<Rightarrow> bool" where
  "wf_maze m = (length (grid m) = nat (height m) \<and> (\<forall>row \<in> set (grid m). length row = nat (width m)))"

definition cell :: "maze \<Rightarrow> coord \<Rightarrow> char" where
  "cell m p = grid m ! nat (fst p) ! nat (snd p)"

definition is_open :: "maze \<Rightarrow> coord \<Rightarrow> bool" where
  "is_open m p = (is_valid m (fst p) (snd p) \<and> cell m p \<noteq> CHR ''#'')"

definition put :: "maze \<Rightarrow> coord \<Rightarrow> char \<Rightarrow> maze" where
  "put m p v = m\<lparr>grid := (grid m)[nat (fst p) := (grid m ! nat (fst p))[nat (snd p) := v]]\<rparr>"

lemma py_index_nonneg: "0 \<le> i \<Longrightarrow> i < int (length xs) \<Longrightarrow> py_index xs i = Some (nat i)"
  by (simp add: py_index_def)

lemma wf_row_length:
  "wf_maze m \<Longrightarrow> is_valid m r c \<Longrightarrow> length (grid m ! nat r) = nat (width m)"
  by (simp add: wf_maze_def is_valid_def)

lemma grid_get_valid:
  assumes "wf_maze m" and "is_valid m r c"
  shows "grid_get (grid m) r c = Inr (cell m (r, c))"
proof -
  have r: "py_index (grid m) r = Some (nat r)"
    using assms by (intro py_index_nonneg) (auto simp: wf_maze_def is_valid_def)
  have c: "py_index (grid m ! nat r) c = Some (nat c)"
    using assms wf_row_length[OF assms] by (intro py_index_nonneg) (auto simp: is_valid_def)
  show ?thesis by (simp add: grid_get_def py_get_def r c cell_def)
qed

lemma grid_set_valid:
  assumes "wf_maze m" and "is_valid m r c"
  shows "grid_set (grid m) r c v = Inr (grid (put m (r, c) v))"
proof -
  have r: "py_index (grid m) r = Some (nat r)"
    using assms by (intro py_index_nonneg) (auto simp: wf_maze_def is_valid_def)
  have c: "py_index (grid m ! nat r) c = Some (nat c)"
    using assms wf_row_length[OF assms] by (intro py_index_nonneg) (auto simp: is_valid_def)
  show ?thesis by (simp add: grid_set_def py_set_def r c put_def)
qed

lemma put_fields [simp]:
  "width (put m p v) = width m" "height (put m p v) = height m"
  "start (put m p v) = start m" "end_pos (put m p v) = end_pos m"
  by (simp_all add: put_def)

lemma is_valid_put [simp]: "is_valid (put m p v) r c = is_valid m r c"
  by (simp add: is_valid_def)

lemma wf_put: "wf_maze m \<Longrightarrow> wf_maze (put m p v)"
proof -
  assume wf: "wf_maze m"
  have "length row = nat (width m)" if "row \<in> set (grid (put m p v))" for row
  proof -
    from that have "row \<in> insert ((grid m ! nat (fst p))[nat (snd p) := v]) (set (grid m))"
      unfolding put_def using set_update_subset_insert by fastforce
    then show ?thesis
    proof
      assume "row = (grid m ! nat (fst p))[nat (snd p) := v]"
      show ?thesis
      proof (cases "nat (fst p) < length (grid m)")
        case True
        then have "grid m ! nat (fst p) \<in> set (grid m)" by simp
        with wf \<open>row = _\<close> show ?thesis by (simp add: wf_maze_def)
      next
        case False
        then have "grid (put m p v) = grid m" by (simp add: put_def list_update_beyond)
        with that wf show ?thesis by (simp add: wf_maze_def)
      qed
    next
      assume "row \<in> set (grid m)"
      with wf show ?thesis by (simp add: wf_maze_def)
    qed
  qed
  moreover have "length (grid (put m p v)) = nat (height m)"
    using wf by (simp add: put_def wf_maze_def)
  ultimately show ?thesis by (simp add: wf_maze_def)
qed

lemma cell_put:
  assumes "wf_maze m" and "is_valid m (fst p) (snd p)" and "is_valid m (fst q) (snd q)"
  shows "cell (put m p v) q = (if q = p then v else cell m q)"
proof -
  have lp: "nat (fst p) < length (grid m)" and lq: "nat (fst q) < length (grid m)"
    using assms by (auto simp: wf_maze_def is_valid_def)
  have cp: "nat (snd p) < length (grid m ! nat (fst p))"
    using assms wf_row_length[OF assms(1,2)] by (auto simp: is_valid_def)
  have eqr: "nat (fst q) = nat (fst p) \<longleftrightarrow> fst q = fst p"
    and eqc: "nat (snd q) = nat (snd p) \<longleftrightarrow> snd q = snd p"
    using assms by (auto simp: is_valid_def)
  show ?thesis
  proof (cases "fst q = fst p")
    case True
    then show ?thesis using lp cp eqc
      by (auto simp: cell_def put_def prod_eq_iff nth_list_update)
  next
    case False
    then show ?thesis using lp lq eqr
      by (auto simp: cell_def put_def prod_eq_iff nth_list_update)
  qed
qed

lemma is_open_put:
  assumes "wf_maze m" and "is_valid m (fst p) (snd p)"
  shows "is_open (put m p v) q = (if q = p then v \<noteq> CHR ''#'' else is_open m q)"
  using cell_put[OF assms, of q v] assms(2) by (auto simp: is_open_def)

section \<open>Simple paths and graphs with exactly one simple path between any two vertices\<close>

text \<open>\<open>spath adj V a b p\<close>: \<open>p\<close> is a simple path from \<open>a\<close> to \<open>b\<close> through vertices of
  \<open>V\<close> whose consecutive vertices are related by \<open>adj\<close>.\<close>

definition spath :: "('a \<Rightarrow> 'a \<Rightarrow> bool) \<Rightarrow> 'a set \<Rightarrow> 'a \<Rightarrow> 'a \<Rightarrow> 'a list \<Rightarrow> bool" where
  "spath adj V a b p =
     (p \<noteq> [] \<and> hd p = a \<and> last p = b \<and> distinct p \<and> set p \<subseteq> V \<and> successively adj p)"

definition unique_paths :: "('a \<Rightarrow> 'a \<Rightarrow> bool) \<Rightarrow> 'a set \<Rightarrow> bool" where
  "unique_paths adj V = (\<forall>a \<in> V. \<forall>b \<in> V. \<exists>!p. spath adj V a b p)"

lemma spath_mono: "spath adj V a b p \<Longrightarrow> V \<subseteq> W \<Longrightarrow> spath adj W a b p"
  by (auto simp: spath_def)

lemma spath_restrict: "spath adj W a b p \<Longrightarrow> set p \<subseteq> V \<Longrightarrow> spath adj V a b p"
  by (auto simp: spath_def)

lemma spath_self: "spath adj V a a p \<Longrightarrow> p = [a]"
proof -
  assume p: "spath adj V a a p"
  then obtain q where pq: "p = a # q" by (cases p) (auto simp: spath_def)
  show ?thesis
  proof (cases q)
    case Nil with pq show ?thesis by simp
  next
    case (Cons y ys)
    with p pq have "last q = a" "a \<notin> set q" by (auto simp: spath_def)
    moreover have "last q \<in> set q" using Cons by simp
    ultimately show ?thesis by simp
  qed
qed

lemma spath_single: "a \<in> V \<Longrightarrow> spath adj V a a [a]"
  by (simp add: spath_def)

lemma spath_rev:
  assumes "\<And>x y. adj x y \<Longrightarrow> adj y x" and "spath adj V a b p"
  shows "spath adj V b a (rev p)"
proof -
  have "successively adj p" using assms(2) by (simp add: spath_def)
  then have "successively (\<lambda>x y. adj y x) p"
    by (rule successively_mono) (auto intro: assms(1))
  with assms(2) show ?thesis
    by (auto simp: spath_def hd_rev last_rev)
qed

lemma unique_paths_sym:
  assumes sym: "\<And>x y. adj x y \<Longrightarrow> adj y x" and ex: "\<exists>!p. spath adj V a b p"
  shows "\<exists>!p. spath adj V b a p"
proof -
  from ex obtain p where p: "spath adj V a b p" and u: "\<And>q. spath adj V a b q \<Longrightarrow> q = p"
    by blast
  show ?thesis
  proof (rule ex1I[of _ "rev p"])
    show "spath adj V b a (rev p)" using sym p by (rule spath_rev)
  next
    fix q assume "spath adj V b a q"
    with sym have "spath adj V a b (rev q)" by (rule spath_rev)
    then have "rev q = p" by (rule u)
    then show "q = rev p" by (metis rev_rev_ident)
  qed
qed

text \<open>A path between two old vertices cannot pass through a new vertex that has
  a single neighbour.\<close>

lemma spath_avoids_leaf:
  assumes sym: "\<And>u v. adj u v \<Longrightarrow> adj v u"
    and only: "\<And>z. z \<in> V \<Longrightarrow> adj x z \<Longrightarrow> z = y"
    and p: "spath adj (insert x V) a b p" and "a \<noteq> x" and "b \<noteq> x"
  shows "x \<notin> set p"
proof
  assume "x \<in> set p"
  then obtain p1 p2 where sp: "p = p1 @ x # p2" by (auto simp: in_set_conv_decomp)
  have d: "distinct p" and s: "successively adj p" and sub: "set p \<subseteq> insert x V"
    and h: "hd p = a" and l: "last p = b"
    using p by (auto simp: spath_def)
  have p1: "p1 \<noteq> []" using h sp \<open>a \<noteq> x\<close> by (cases p1) auto
  have p2: "p2 \<noteq> []" using l sp \<open>b \<noteq> x\<close> by (cases p2) auto
  have a1: "adj (last p1) x" and a2: "adj x (hd p2)"
    using s p1 p2 unfolding sp by (auto simp: successively_append_iff successively_Cons)
  have m1: "last p1 \<in> set p1" and m2: "hd p2 \<in> set p2" using p1 p2 by auto
  have "last p1 \<noteq> x" "hd p2 \<noteq> x" using d m1 m2 unfolding sp by auto
  with sub m1 m2 have "last p1 \<in> V" "hd p2 \<in> V" unfolding sp by auto
  with a1 a2 have "last p1 = y" "hd p2 = y" by (auto intro: only sym)
  with m1 m2 d show False unfolding sp by auto
qed

lemma unique_paths_leaf:
  assumes up: "unique_paths adj V"
    and sym: "\<And>u v. adj u v \<Longrightarrow> adj v u"
    and x: "x \<notin> V" and y: "y \<in> V" and xy: "adj x y"
    and only: "\<And>z. z \<in> V \<Longrightarrow> adj x z \<Longrightarrow> z = y"
  shows "unique_paths adj (insert x V)"
proof -
  let ?W = "insert x V"
  have from_x: "\<exists>!p. spath adj ?W x b p" if b: "b \<in> V" for b
  proof -
    from up y b obtain q where q: "spath adj V y b q" and uq: "\<And>q'. spath adj V y b q' \<Longrightarrow> q' = q"
      unfolding unique_paths_def by blast
    have qne: "q \<noteq> []" and hq: "hd q = y" using q by (auto simp: spath_def)
    show ?thesis
    proof (rule ex1I[of _ "x # q"])
      show "spath adj ?W x b (x # q)"
        using q x xy by (auto simp: spath_def successively_Cons)
    next
      fix p assume p: "spath adj ?W x b p"
      then obtain r where pr: "p = x # r" by (cases p) (auto simp: spath_def)
      have "b \<noteq> x" using b x by auto
      with p pr have rne: "r \<noteq> []" by (auto simp: spath_def)
      have xr: "x \<notin> set r" and subr: "set r \<subseteq> V" and ar: "adj x (hd r)"
        and sr: "successively adj r" and dr: "distinct r" and lr: "last r = b"
        using p pr rne by (auto simp: spath_def successively_Cons)
      have "hd r \<in> V" using rne subr by auto
      then have "hd r = y" using ar by (rule only)
      then have "spath adj V y b r" using rne subr sr dr lr by (simp add: spath_def)
      then have "r = q" by (rule uq)
      then show "p = x # q" using pr by simp
    qed
  qed
  have old: "\<exists>!p. spath adj ?W a b p" if a: "a \<in> V" and b: "b \<in> V" for a b
  proof -
    from up a b obtain q where q: "spath adj V a b q" and uq: "\<And>q'. spath adj V a b q' \<Longrightarrow> q' = q"
      unfolding unique_paths_def by blast
    show ?thesis
    proof (rule ex1I[of _ q])
      show "spath adj ?W a b q" using q by (rule spath_mono) auto
    next
      fix p assume p: "spath adj ?W a b p"
      have "a \<noteq> x" "b \<noteq> x" using a b x by auto
      with sym only p have "x \<notin> set p" by (rule spath_avoids_leaf)
      moreover have "set p \<subseteq> ?W" using p by (simp add: spath_def)
      ultimately have "set p \<subseteq> V" by auto
      with p have "spath adj V a b p" by (rule spath_restrict)
      then show "p = q" by (rule uq)
    qed
  qed
  have self: "\<exists>!p. spath adj ?W x x p"
    by (rule ex1I[of _ "[x]"]) (auto simp: spath_single dest: spath_self)
  show ?thesis
    unfolding unique_paths_def
  proof (intro ballI)
    fix a b assume "a \<in> ?W" "b \<in> ?W"
    then consider "a = x" "b = x" | "a = x" "b \<in> V" | "a \<in> V" "b = x" | "a \<in> V" "b \<in> V"
      by auto
    then show "\<exists>!p. spath adj ?W a b p"
    proof cases
      case 1 then show ?thesis using self by simp
    next
      case 2 then show ?thesis using from_x by simp
    next
      case 3
      then have "\<exists>!p. spath adj ?W x a p" using from_x by simp
      with sym have "\<exists>!p. spath adj ?W a x p" by (rule unique_paths_sym)
      with 3 show ?thesis by simp
    next
      case 4 then show ?thesis using old by simp
    qed
  qed
qed

lemma unique_paths_singleton: "unique_paths adj {a}"
  unfolding unique_paths_def
proof (intro ballI)
  fix x y assume "x \<in> {a}" "y \<in> {a}"
  then have xy: "x = a" "y = a" by auto
  show "\<exists>!p. spath adj {a} x y p"
    unfolding xy by (rule ex1I[of _ "[a]"]) (auto simp: spath_single dest: spath_self)
qed

section \<open>What the carving loop maintains\<close>

text \<open>Two cells are \<open>adjacent\<close> when one 4-directional move leads from one to the
  other. \<open>lattice_ok\<close>: an open cell is a junction (odd row and column) or a
  connector between two open junctions. \<open>exhausted\<close>: every junction two cells
  away, inside the grid, is open.\<close>

definition adjacent :: "coord \<Rightarrow> coord \<Rightarrow> bool" where
  "adjacent p q = (\<bar>fst p - fst q\<bar> + \<bar>snd p - snd q\<bar> = 1)"

definition opens :: "maze \<Rightarrow> coord set" where
  "opens m = {p. is_open m p}"

definition lattice_ok :: "maze \<Rightarrow> bool" where
  "lattice_ok m =
     (\<forall>r c. is_open m (r, c) \<longrightarrow>
        (odd r \<and> odd c)
      \<or> (odd r \<and> even c \<and> is_open m (r, c - 1) \<and> is_open m (r, c + 1))
      \<or> (even r \<and> odd c \<and> is_open m (r - 1, c) \<and> is_open m (r + 1, c)))"

definition exhausted :: "maze \<Rightarrow> coord \<Rightarrow> bool" where
  "exhausted m p =
     (\<forall>d \<in> set gen_directions.
        is_valid m (fst p + fst d) (snd p + snd d) \<longrightarrow> is_open m (fst p + fst d, snd p + snd d))"

definition gen_inv :: "maze \<Rightarrow> coord list \<Rightarrow> bool" where
  "gen_inv m stack =
     (wf_maze m \<and> lattice_ok m \<and> unique_paths adjacent (opens m)
      \<and> (\<forall>p \<in> set stack. is_open m p \<and> odd (fst p) \<and> odd (snd p))
      \<and> (\<forall>p. is_open m p \<and> odd (fst p) \<and> odd (snd p) \<and> p \<notin> set stack \<longrightarrow> exhausted m p)
      \<and> (\<forall>p. is_valid m (fst p) (snd p) \<longrightarrow> cell m p = CHR ''#'' \<or> cell m p = CHR '' ''))"

lemma adjacent_sym: "adjacent p q \<Longrightarrow> adjacent q p"
  by (simp add: adjacent_def abs_minus_commute)

lemma unvisited_neighbors_wf:
  assumes "wf_maze m"
  shows "unvisited_neighbors m cur ds =
     Inr (filter (\<lambda>n. is_valid m (fst n) (snd n) \<and> cell m n = CHR ''#'')
            (map (\<lambda>d. (fst cur + fst d, snd cur + snd d)) ds))"
proof (induction ds)
  case Nil show ?case by simp
next
  case (Cons d ds)
  show ?case
  proof (cases "is_valid m (fst cur + fst d) (snd cur + snd d)")
    case True
    from grid_get_valid[OF assms True] Cons True show ?thesis by (simp add: Let_def)
  next
    case False
    with Cons show ?thesis by (simp add: Let_def)
  qed
qed

lemma carve_wf:
  assumes "wf_maze m" and "is_valid m (fst n) (snd n)"
    and "is_valid m (fst cur + (fst n - fst cur) div 2) (snd cur + (snd n - snd cur) div 2)"
  shows "carve m cur n =
     Inr (put (put m n CHR '' '') (fst cur + (fst n - fst cur) div 2, snd cur + (snd n - snd cur) div 2) CHR '' '')"
proof -
  let ?m1 = "put m n CHR '' ''"
  let ?w = "(fst cur + (fst n - fst cur) div 2, snd cur + (snd n - snd cur) div 2)"
  have 1: "grid_set (grid m) (fst n) (snd n) CHR '' '' = Inr (grid ?m1)"
    using grid_set_valid[OF assms(1), of "fst n" "snd n"] assms(2) by simp
  have wf1: "wf_maze ?m1" using assms(1) by (rule wf_put)
  have v1: "is_valid ?m1 (fst ?w) (snd ?w)" using assms(3) by simp
  have 2: "grid_set (grid ?m1) (fst ?w) (snd ?w) CHR '' '' = Inr (grid (put ?m1 ?w CHR '' ''))"
    using grid_set_valid[OF wf1 v1] by simp
  have eq: "m\<lparr>grid := grid (put ?m1 ?w CHR '' '')\<rparr> = put ?m1 ?w CHR '' ''"
    by (simp add: put_def)
  show ?thesis using 1 2 eq by (simp add: carve_def Let_def)
qed

lemma lattice_okD:
  "lattice_ok m \<Longrightarrow> is_open m (r, c) \<Longrightarrow>
     (odd r \<and> odd c)
      \<or> (odd r \<and> even c \<and> is_open m (r, c - 1) \<and> is_open m (r, c + 1))
      \<or> (even r \<and> odd c \<and> is_open m (r - 1, c) \<and> is_open m (r + 1, c))"
  unfolding lattice_ok_def by blast

lemma adjacent_cases:
  "adjacent (a, b) z \<longleftrightarrow> z = (a, b + 1) \<or> z = (a, b - 1) \<or> z = (a + 1, b) \<or> z = (a - 1, b)"
proof -
  obtain x y where z: "z = (x, y)" by (cases z)
  show ?thesis unfolding z adjacent_def by (simp add: prod_eq_iff) arith
qed

text \<open>The geometry of one carving step from the junction \<open>(r, c)\<close> in the unit
  direction \<open>(er, ec)\<close>: the wall is one step away, the new junction two.\<close>

lemma wall_not_open:
  assumes ok: "lattice_ok m" and odd: "odd r" "odd c"
    and e: "(er, ec) \<in> {(0, 1), (0, -1), (1, 0), (-1, 0)}"
    and closed: "\<not> is_open m (r + 2 * er, c + 2 * ec)"
  shows "\<not> is_open m (r + er, c + ec)"
proof
  assume "is_open m (r + er, c + ec)"
  from lattice_okD[OF ok this] odd e closed show False
    by (auto simp: add.commute add.left_commute)
qed

lemma wall_only_neighbour:
  assumes ok: "lattice_ok m" and odd: "odd r" "odd c"
    and e: "(er, ec) \<in> {(0, 1), (0, -1), (1, 0), (-1, 0)}"
    and closed: "\<not> is_open m (r + 2 * er, c + 2 * ec)"
    and z: "is_open m z" and adj: "adjacent (r + er, c + ec) z"
  shows "z = (r, c)"
proof -
  obtain x y where zz: "z = (x, y)" by (cases z)
  from lattice_okD[OF ok z[unfolded zz]] have par: "odd x \<or> odd y" by auto
  from adj[unfolded adjacent_cases zz] e odd par closed z[unfolded zz]
  show ?thesis unfolding zz by (auto simp: add.commute add.left_commute)
qed

lemma junction_no_open_neighbour:
  assumes ok: "lattice_ok m" and odd: "odd r" "odd c"
    and closed: "\<not> is_open m (r, c)"
    and z: "is_open m z" and adj: "adjacent (r, c) z"
  shows False
proof -
  obtain x y where zz: "z = (x, y)" by (cases z)
  from adj[unfolded adjacent_cases zz] lattice_okD[OF ok z[unfolded zz]] odd closed
  show False by auto
qed

lemma carve_step:
  assumes inv: "gen_inv m ((r, c) # rest)"
    and e: "(er, ec) \<in> {(0, 1), (0, -1), (1, 0), (-1, 0)}"
    and vn: "is_valid m (r + 2 * er) (c + 2 * ec)"
    and cn: "cell m (r + 2 * er, c + 2 * ec) = CHR ''#''"
  defines "m' \<equiv> put (put m (r + 2 * er, c + 2 * ec) CHR '' '') (r + er, c + ec) CHR '' ''"
  shows "gen_inv m' ((r + 2 * er, c + 2 * ec) # (r, c) # rest)"
    and "opens m \<subseteq> opens m'"
proof -
  let ?n = "(r + 2 * er, c + 2 * ec)" and ?w = "(r + er, c + ec)"
  let ?m1 = "put m ?n CHR '' ''"
  have wf: "wf_maze m" and ok: "lattice_ok m" and up: "unique_paths adjacent (opens m)"
    and st: "\<forall>p \<in> set ((r, c) # rest). is_open m p \<and> odd (fst p) \<and> odd (snd p)"
    and ex: "\<forall>p. is_open m p \<and> odd (fst p) \<and> odd (snd p) \<and> p \<notin> set ((r, c) # rest) \<longrightarrow> exhausted m p"
    and cells: "\<forall>p. is_valid m (fst p) (snd p) \<longrightarrow> cell m p = CHR ''#'' \<or> cell m p = CHR '' ''"
    using inv unfolding gen_inv_def by blast+
  have cur: "is_open m (r, c)" and odd: "odd r" "odd c" using st by auto
  have vcur: "is_valid m r c" using cur by (simp add: is_open_def)
  have vw: "is_valid m (r + er) (c + ec)"
    using vcur vn e by (auto simp: is_valid_def)
  have nclosed: "\<not> is_open m ?n" using cn by (simp add: is_open_def)
  have wclosed: "\<not> is_open m ?w" using ok odd e nclosed by (rule wall_not_open)
  have wn: "?w \<noteq> ?n" using e by auto
  have wf1: "wf_maze ?m1" using wf by (rule wf_put)
  have wf': "wf_maze m'" unfolding m'_def using wf1 by (rule wf_put)
  have open1: "is_open ?m1 q = (q = ?n \<or> is_open m q)" for q
    using is_open_put[OF wf, of ?n "CHR '' ''" q] vn by auto
  have open': "is_open m' q = (q = ?w \<or> q = ?n \<or> is_open m q)" for q
    unfolding m'_def using is_open_put[OF wf1, of ?w "CHR '' ''" q] vw open1 by auto
  have valid': "is_valid m' a b = is_valid m a b" for a b
    unfolding m'_def by simp
  have opens': "opens m' = insert ?n (insert ?w (opens m))"
    unfolding opens_def using open' by auto
  show sub: "opens m \<subseteq> opens m'" unfolding opens' by auto
  \<comment> \<open>the wall and then the new junction are leaves\<close>
  have u1: "unique_paths adjacent (insert ?w (opens m))"
  proof (rule unique_paths_leaf[OF up adjacent_sym, where y = "(r, c)"])
    show "?w \<notin> opens m" using wclosed by (simp add: opens_def)
    show "(r, c) \<in> opens m" using cur by (simp add: opens_def)
    show "adjacent ?w (r, c)" using e by (auto simp: adjacent_def)
    fix z assume "z \<in> opens m" "adjacent ?w z"
    then show "z = (r, c)"
      using wall_only_neighbour[OF ok odd e nclosed, of z] by (simp add: opens_def)
  qed
  have lat1: False if z: "is_open m z" and adj: "adjacent ?n z" for z
  proof -
    have "odd (r + 2 * er)" "odd (c + 2 * ec)" using odd by auto
    from junction_no_open_neighbour[OF ok this nclosed z adj] show False .
  qed
  have u2: "unique_paths adjacent (insert ?n (insert ?w (opens m)))"
  proof (rule unique_paths_leaf[OF u1 adjacent_sym, where y = ?w])
    show "?n \<notin> insert ?w (opens m)" using nclosed wn by (auto simp: opens_def)
    show "?w \<in> insert ?w (opens m)" by simp
    show "adjacent ?n ?w" using e by (auto simp: adjacent_def)
    fix z assume "z \<in> insert ?w (opens m)" "adjacent ?n z"
    then show "z = ?w" using lat1[of z] by (auto simp: opens_def)
  qed
  have up': "unique_paths adjacent (opens m')" unfolding opens' by (rule u2)
  have ok': "lattice_ok m'"
    unfolding lattice_ok_def
  proof (intro allI impI)
    fix a b assume "is_open m' (a, b)"
    then consider "(a, b) = ?w" | "(a, b) = ?n" | "is_open m (a, b)" unfolding open' by blast
    then show "(odd a \<and> odd b)
      \<or> (odd a \<and> even b \<and> is_open m' (a, b - 1) \<and> is_open m' (a, b + 1))
      \<or> (even a \<and> odd b \<and> is_open m' (a - 1, b) \<and> is_open m' (a + 1, b))"
    proof cases
      case 1
      then show ?thesis using e odd cur unfolding open'
        by (auto simp: add.commute add.left_commute)
    next
      case 2
      then show ?thesis using odd by auto
    next
      case 3
      from lattice_okD[OF ok 3] show ?thesis unfolding open' by blast
    qed
  qed
  have st': "\<forall>p \<in> set (?n # (r, c) # rest). is_open m' p \<and> odd (fst p) \<and> odd (snd p)"
    using st odd unfolding open' by auto
  have exh_mono: "exhausted m' p" if "exhausted m p" for p
    using that unfolding exhausted_def valid' open' by blast
  have ex': "\<forall>p. is_open m' p \<and> odd (fst p) \<and> odd (snd p) \<and> p \<notin> set (?n # (r, c) # rest)
                \<longrightarrow> exhausted m' p"
  proof (intro allI impI)
    fix p assume p: "is_open m' p \<and> odd (fst p) \<and> odd (snd p) \<and> p \<notin> set (?n # (r, c) # rest)"
    have "p \<noteq> ?w" using p e odd by auto
    with p have "is_open m p" unfolding open' by auto
    moreover have "p \<notin> set ((r, c) # rest)" using p by simp
    ultimately have "exhausted m p" using p ex by blast
    then show "exhausted m' p" by (rule exh_mono)
  qed
  have cells': "\<forall>p. is_valid m' (fst p) (snd p) \<longrightarrow> cell m' p = CHR ''#'' \<or> cell m' p = CHR '' ''"
  proof (intro allI impI)
    fix p assume "is_valid m' (fst p) (snd p)"
    then have vp: "is_valid m (fst p) (snd p)" by (simp add: valid')
    have c1: "cell ?m1 p = (if p = ?n then CHR '' '' else cell m p)"
      using cell_put[OF wf _ vp, of ?n] vn by simp
    have "cell m' p = (if p = ?w then CHR '' '' else cell ?m1 p)"
      unfolding m'_def using cell_put[OF wf1, of ?w p] vw vp by simp
    moreover have "cell m p = CHR ''#'' \<or> cell m p = CHR '' ''"
      using cells vp by blast
    ultimately show "cell m' p = CHR ''#'' \<or> cell m' p = CHR '' ''"
      using c1 by (simp split: if_splits)
  qed
  show "gen_inv m' (?n # (r, c) # rest)"
    unfolding gen_inv_def using wf' ok' up' st' ex' cells' by blast
qed

lemma pop_step:
  assumes inv: "gen_inv m (cur # rest)"
    and none: "unvisited_neighbors m cur gen_directions = Inr []"
  shows "gen_inv m rest"
proof -
  have wf: "wf_maze m" using inv by (simp add: gen_inv_def)
  have ex: "\<forall>p. is_open m p \<and> odd (fst p) \<and> odd (snd p) \<and> p \<notin> set (cur # rest) \<longrightarrow> exhausted m p"
    using inv unfolding gen_inv_def by blast
  have "exhausted m cur"
    unfolding exhausted_def
  proof (intro ballI impI)
    fix d assume d: "d \<in> set gen_directions"
      and v: "is_valid m (fst cur + fst d) (snd cur + snd d)"
    let ?n = "(fst cur + fst d, snd cur + snd d)"
    have "filter (\<lambda>n. is_valid m (fst n) (snd n) \<and> cell m n = CHR ''#'')
            (map (\<lambda>d. (fst cur + fst d, snd cur + snd d)) gen_directions) = []"
      using none unfolding unvisited_neighbors_wf[OF wf] by simp
    then have "\<not> (is_valid m (fst ?n) (snd ?n) \<and> cell m ?n = CHR ''#'')"
      using d unfolding filter_empty_conv by auto
    with v show "is_open m ?n" by (simp add: is_open_def)
  qed
  with ex have ex': "\<forall>p. is_open m p \<and> odd (fst p) \<and> odd (snd p) \<and> p \<notin> set rest \<longrightarrow> exhausted m p"
    by auto
  have st: "\<forall>p \<in> set rest. is_open m p \<and> odd (fst p) \<and> odd (snd p)"
    using inv unfolding gen_inv_def by simp
  have rest: "lattice_ok m" "unique_paths adjacent (opens m)"
    "\<forall>p. is_valid m (fst p) (snd p) \<longrightarrow> cell m p = CHR ''#'' \<or> cell m p = CHR '' ''"
    using inv unfolding gen_inv_def by blast+
  show ?thesis
    unfolding gen_inv_def using wf rest st ex' by blast
qed

lemma choice_step:
  assumes inv: "gen_inv m (cur # rest)"
    and ns: "unvisited_neighbors m cur gen_directions = Inr ns" and n: "n \<in> set ns"
  shows "\<exists>m'. carve m cur n = Inr m' \<and> gen_inv m' (n # cur # rest) \<and> opens m \<subseteq> opens m'
            \<and> width m' = width m \<and> height m' = height m
            \<and> start m' = start m \<and> end_pos m' = end_pos m"
proof -
  obtain r c where cur: "cur = (r, c)" by (cases cur)
  have wf: "wf_maze m" using inv by (simp add: gen_inv_def)
  have open_cur: "is_open m (r, c)" using inv unfolding gen_inv_def cur by simp
  from ns n have mem: "n \<in> set (filter (\<lambda>n. is_valid m (fst n) (snd n) \<and> cell m n = CHR ''#'')
            (map (\<lambda>d. (fst cur + fst d, snd cur + snd d)) gen_directions))"
    unfolding unvisited_neighbors_wf[OF wf] by simp
  then obtain d where d: "d \<in> set gen_directions" and nd: "n = (r + fst d, c + snd d)"
    and vn: "is_valid m (fst n) (snd n)" and cn: "cell m n = CHR ''#''"
    unfolding cur by auto
  from d have "d = (2 * 0, 2 * 1) \<or> d = (2 * 0, 2 * (-1)) \<or> d = (2 * 1, 2 * 0) \<or> d = (2 * (-1), 2 * 0)"
    unfolding gen_directions_def by simp
  then obtain er ec :: int where e: "(er, ec) \<in> {(0, 1), (0, -1), (1, 0), (-1, 0)}"
    and de: "d = (2 * er, 2 * ec)"
    by (elim disjE) (rule that[rotated], assumption, simp)+
  have n2: "n = (r + 2 * er, c + 2 * ec)" using nd de by simp
  let ?m' = "put (put m (r + 2 * er, c + 2 * ec) CHR '' '') (r + er, c + ec) CHR '' ''"
  have wall: "fst cur + (fst n - fst cur) div 2 = r + er" "snd cur + (snd n - snd cur) div 2 = c + ec"
    unfolding cur n2 by simp_all
  have vw: "is_valid m (r + er) (c + ec)"
    using open_cur vn e unfolding n2 by (auto simp: is_open_def is_valid_def)
  have "carve m cur n = Inr ?m'"
    using carve_wf[OF wf vn, of cur] vw unfolding wall unfolding n2 by simp
  moreover have "gen_inv ?m' (n # cur # rest)" "opens m \<subseteq> opens ?m'"
    using carve_step[OF inv[unfolded cur] e] vn cn unfolding n2 cur by simp_all
  ultimately show ?thesis by simp
qed

lemma gen_loop_inv:
  "gen_inv m stack \<Longrightarrow>
     \<exists>m'. gen_loop rnd k m stack = Inr m' \<and> gen_inv m' [] \<and> opens m \<subseteq> opens m'
          \<and> width m' = width m \<and> height m' = height m
          \<and> start m' = start m \<and> end_pos m' = end_pos m"
proof (induction rnd k m stack rule: gen_loop.induct)
  case (1 rnd k m)
  then show ?case by simp
next
  case (2 rnd k m cur rest)
  have wf: "wf_maze m" using "2.prems" by (simp add: gen_inv_def)
  obtain ns where ns: "unvisited_neighbors m cur gen_directions = Inr ns"
    unfolding unvisited_neighbors_wf[OF wf] by blast
  show ?case
  proof (cases "ns = []")
    case True
    have "gen_inv m rest" using "2.prems" ns[unfolded True] by (rule pop_step)
    from "2.IH"(2)[OF ns _ this] True ns show ?thesis by simp
  next
    case False
    let ?n = "random_choice rnd k ns"
    have "?n \<in> set ns" using False by (simp add: random_choice_def)
    from choice_step[OF "2.prems" ns this] obtain m1 where
      c: "carve m cur ?n = Inr m1" and inv1: "gen_inv m1 (?n # cur # rest)"
      and sub: "opens m \<subseteq> opens m1"
      and f: "width m1 = width m" "height m1 = height m" "start m1 = start m" "end_pos m1 = end_pos m"
      by blast
    from "2.IH"(1)[OF ns False refl c inv1] obtain m' where
      "gen_loop rnd (Suc k) m1 (?n # cur # rest) = Inr m'" "gen_inv m' []" "opens m1 \<subseteq> opens m'"
      "width m' = width m1" "height m' = height m1" "start m' = start m1" "end_pos m' = end_pos m1"
      by blast
    with ns False c sub f show ?thesis by (simp add: Let_def)
  qed
qed

lemma junction_column_open:
  assumes inv: "gen_inv m []" and s: "is_open m (1, 1)"
  shows "is_valid m (1 + 2 * int i) 1 \<Longrightarrow> is_open m (1 + 2 * int i, 1)"
proof (induction i)
  case 0 then show ?case using s by simp
next
  case (Suc i)
  then have v: "is_valid m (1 + 2 * int i) 1" by (simp add: is_valid_def)
  from Suc.IH[OF v] have o: "is_open m (1 + 2 * int i, 1)" .
  have "exhausted m (1 + 2 * int i, 1)" using inv o unfolding gen_inv_def by simp
  then have "is_valid m (1 + 2 * int i + 2) 1 \<longrightarrow> is_open m (1 + 2 * int i + 2, 1)"
    unfolding exhausted_def gen_directions_def by simp
  with Suc.prems show ?case by (simp add: algebra_simps)
qed

lemma junction_open:
  assumes inv: "gen_inv m []" and s: "is_open m (1, 1)"
  shows "is_valid m (1 + 2 * int i) (1 + 2 * int j) \<Longrightarrow> is_open m (1 + 2 * int i, 1 + 2 * int j)"
proof (induction j)
  case 0
  then show ?case using junction_column_open[OF inv s, of i] by simp
next
  case (Suc j)
  then have v: "is_valid m (1 + 2 * int i) (1 + 2 * int j)" by (simp add: is_valid_def)
  from Suc.IH[OF v] have o: "is_open m (1 + 2 * int i, 1 + 2 * int j)" .
  have "exhausted m (1 + 2 * int i, 1 + 2 * int j)" using inv o unfolding gen_inv_def by simp
  then have "is_valid m (1 + 2 * int i) (1 + 2 * int j + 2) \<longrightarrow> is_open m (1 + 2 * int i, 1 + 2 * int j + 2)"
    unfolding exhausted_def gen_directions_def by simp
  with Suc.prems show ?case by (simp add: algebra_simps)
qed

lemma all_junctions_open:
  assumes inv: "gen_inv m []" and s: "is_open m (1, 1)"
    and v: "is_valid m r c" and odd: "odd r" "odd c"
  shows "is_open m (r, c)"
proof -
  from odd v obtain i j :: nat where "r = 1 + 2 * int i" "c = 1 + 2 * int j"
  proof -
    have "0 \<le> r" "0 \<le> c" using v by (simp_all add: is_valid_def)
    have "r = 1 + 2 * int (nat ((r - 1) div 2))"
      using \<open>0 \<le> r\<close> odd(1) by (elim oddE) simp
    moreover have "c = 1 + 2 * int (nat ((c - 1) div 2))"
      using \<open>0 \<le> c\<close> odd(2) by (elim oddE) simp
    ultimately have "r = 1 + 2 * int (nat ((r - 1) div 2))" "c = 1 + 2 * int (nat ((c - 1) div 2))"
      by blast+
    then show ?thesis using that by blast
  qed
  with junction_open[OF inv s, of i j] v show ?thesis by simp
qed

section \<open>The generated maze\<close>

lemma grid_put_eq: "m\<lparr>grid := grid (put m p v)\<rparr> = put m p v"
  by (simp add: put_def)

lemma grid_put_put_eq: "m\<lparr>grid := grid (put (put m p v) q u)\<rparr> = put (put m p v) q u"
  by (simp add: put_def)

definition all_walls :: "maze \<Rightarrow> bool" where
  "all_walls m = (\<forall>p. is_valid m (fst p) (snd p) \<longrightarrow> cell m p = CHR ''#'')"

lemma gen_inv_initial:
  assumes wf: "wf_maze m" and walls: "all_walls m" and v: "is_valid m 1 1"
  shows "gen_inv (put m (1, 1) CHR '' '') [(1, 1)]"
    and "opens (put m (1, 1) CHR '' '') = {(1, 1)}"
proof -
  let ?m1 = "put m (1, 1) CHR '' ''"
  have closed: "\<not> is_open m q" for q using walls unfolding is_open_def all_walls_def by blast
  have open1: "is_open ?m1 q = (q = (1, 1))" for q
    using is_open_put[OF wf, of "(1, 1)" "CHR '' ''" q] v closed by auto
  show opens1: "opens ?m1 = {(1, 1)}" unfolding opens_def using open1 by auto
  have wf1: "wf_maze ?m1" using wf by (rule wf_put)
  have ok: "lattice_ok ?m1" unfolding lattice_ok_def open1 by simp
  have up: "unique_paths adjacent (opens ?m1)" unfolding opens1 by (rule unique_paths_singleton)
  have cells: "\<forall>p. is_valid ?m1 (fst p) (snd p) \<longrightarrow> cell ?m1 p = CHR ''#'' \<or> cell ?m1 p = CHR '' ''"
  proof (intro allI impI)
    fix p assume "is_valid ?m1 (fst p) (snd p)"
    then have vp: "is_valid m (fst p) (snd p)" by simp
    have "cell ?m1 p = (if p = (1, 1) then CHR '' '' else cell m p)"
      using cell_put[OF wf _ vp, of "(1, 1)"] v by simp
    moreover have "cell m p = CHR ''#''" using walls vp unfolding all_walls_def by blast
    ultimately show "cell ?m1 p = CHR ''#'' \<or> cell ?m1 p = CHR '' ''" by simp
  qed
  show "gen_inv ?m1 [(1, 1)]"
    unfolding gen_inv_def using wf1 ok up cells by (simp add: open1)
qed

lemma generate_wf:
  assumes wf: "wf_maze m" and walls: "all_walls m" and st: "start m = (1, 1)"
    and en: "end_pos m = (height m - 2, width m - 2)"
    and dims: "odd (width m)" "odd (height m)" "3 \<le> width m" "3 \<le> height m"
  shows "\<exists>m2. gen_inv m2 [] \<and> is_open m2 (1, 1) \<and> is_open m2 (end_pos m)
            \<and> width m2 = width m \<and> height m2 = height m
            \<and> start m2 = start m \<and> end_pos m2 = end_pos m
            \<and> generate rnd m = Inr (put (put m2 (1, 1) CHR ''S'') (end_pos m) CHR ''E'')"
proof -
  let ?m1 = "put m (1, 1) CHR '' ''"
  have v: "is_valid m 1 1" using dims by (simp add: is_valid_def)
  have ve: "is_valid m (height m - 2) (width m - 2)" using dims by (simp add: is_valid_def)
  from gen_loop_inv[OF gen_inv_initial(1)[OF wf walls v], of rnd 0]
  obtain m2 where loop: "gen_loop rnd 0 ?m1 [(1, 1)] = Inr m2" and inv: "gen_inv m2 []"
    and sub: "opens ?m1 \<subseteq> opens m2"
    and f: "width m2 = width m" "height m2 = height m" "start m2 = start m" "end_pos m2 = end_pos m"
    by auto
  have o1: "is_open m2 (1, 1)"
    using sub gen_inv_initial(2)[OF wf walls v] by (auto simp: opens_def)
  have ve2: "is_valid m2 (height m - 2) (width m - 2)" using ve f by (simp add: is_valid_def)
  have oe: "is_open m2 (end_pos m)"
    unfolding en using inv o1 ve2 by (rule all_junctions_open) (use dims in auto)
  have wf2: "wf_maze m2" using inv by (simp add: gen_inv_def)
  have v2: "is_valid m2 1 1" using v f by (simp add: is_valid_def)
  have g0: "grid_set (grid m) 1 1 CHR '' '' = Inr (grid ?m1)"
    using wf v by (rule grid_set_valid)
  have g2: "grid_set (grid m2) 1 1 CHR ''S'' = Inr (grid (put m2 (1, 1) CHR ''S''))"
    using wf2 v2 by (rule grid_set_valid)
  have wf3: "wf_maze (put m2 (1, 1) CHR ''S'')" using wf2 by (rule wf_put)
  have g3: "grid_set (grid (put m2 (1, 1) CHR ''S'')) (height m - 2) (width m - 2) CHR ''E''
      = Inr (grid (put (put m2 (1, 1) CHR ''S'') (height m - 2, width m - 2) CHR ''E''))"
    using wf3 by (rule grid_set_valid) (use ve2 in simp)
  have "generate rnd m = Inr (put (put m2 (1, 1) CHR ''S'') (end_pos m) CHR ''E'')"
    unfolding generate_def
    by (simp add: st g0 grid_put_eq loop f g2 en g3 grid_put_put_eq del: gen_loop.simps)
  with inv o1 oe f show ?thesis by blast
qed

lemma wf_Maze_init: "wf_maze (Maze_init w h)"
  by (simp add: wf_maze_def Maze_init_simps(3))

lemma all_walls_Maze_init: "all_walls (Maze_init w h)"
  unfolding all_walls_def
proof (intro allI impI)
  fix p assume v: "is_valid (Maze_init w h) (fst p) (snd p)"
  then have "nat (fst p) < nat (height (Maze_init w h))" "nat (snd p) < nat (width (Maze_init w h))"
    by (auto simp: is_valid_def)
  then show "cell (Maze_init w h) p = CHR ''#''"
    unfolding cell_def Maze_init_simps(3) by simp
qed

lemma odd_Maze_init: "odd (width (Maze_init w h))" "odd (height (Maze_init w h))"
  unfolding Maze_init_simps by presburger+

text \<open>The normalised dimensions are at least 3 exactly for inputs of at least 2.\<close>

lemma Maze_init_dims_ge3:
  "3 \<le> width (Maze_init w h) \<longleftrightarrow> 2 \<le> w" "3 \<le> height (Maze_init w h) \<longleftrightarrow> 2 \<le> h"
  unfolding Maze_init_simps by presburger+

lemma Maze_init_dims_le1:
  "width (Maze_init w h) \<le> 1 \<longleftrightarrow> w \<le> 1" "height (Maze_init w h) \<le> 1 \<longleftrightarrow> h \<le> 1"
  unfolding Maze_init_simps by presburger+

text \<open>Marking start and end does not change which cells are open.\<close>

lemma marks_keep_open:
  assumes wf: "wf_maze m" and s: "is_open m s" and e: "is_open m e"
    and a: "a \<noteq> CHR ''#''" and b: "b \<noteq> CHR ''#''"
  shows "is_open (put (put m s a) e b) q = is_open m q"
proof -
  have vs: "is_valid m (fst s) (snd s)" and ve: "is_valid m (fst e) (snd e)"
    using s e by (simp_all add: is_open_def)
  have 1: "is_open (put m s a) q = is_open m q" for q
    using is_open_put[OF wf vs, of a q] a s by auto
  have "is_open (put (put m s a) e b) q = (if q = e then True else is_open (put m s a) q)"
    using is_open_put[where m = "put m s a" and p = e and v = b and q = q, OF wf_put[OF wf]] ve b by simp
  then show ?thesis using 1 e by auto
qed

lemma lattice_ok_cong:
  "(\<And>q. is_open m' q = is_open m q) \<Longrightarrow> lattice_ok m' = lattice_ok m"
  unfolding lattice_ok_def by simp

lemma opens_cong: "(\<And>q. is_open m' q = is_open m q) \<Longrightarrow> opens m' = opens m"
  unfolding opens_def by auto

lemma marks_cell:
  assumes wf: "wf_maze m" and vs: "is_valid m (fst s) (snd s)" and ve: "is_valid m (fst e) (snd e)"
    and vq: "is_valid m (fst q) (snd q)"
  shows "cell (put (put m s a) e b) q = (if q = e then b else if q = s then a else cell m q)"
proof -
  have "cell (put (put m s a) e b) q = (if q = e then b else cell (put m s a) q)"
    using cell_put[where m = "put m s a" and p = e and v = b and q = q, OF wf_put[OF wf]] ve vq by simp
  moreover have "cell (put m s a) q = (if q = s then a else cell m q)"
    using cell_put[OF wf vs vq] .
  ultimately show ?thesis by simp
qed

lemma grid_set_11_fails:
  assumes wf: "wf_maze m" and small: "width m \<le> 1 \<or> height m \<le> 1"
  shows "grid_set (grid m) 1 1 v = Inl IndexError"
proof (cases "height m \<le> 1")
  case True
  then have "int (length (grid m)) \<le> 1" using wf by (simp add: wf_maze_def)
  then have "py_index (grid m) 1 = None" by (simp add: py_index_def)
  then show ?thesis by (simp add: grid_set_def)
next
  case False
  with small have w: "width m \<le> 1" by simp
  from False have l: "1 < int (length (grid m))" using wf by (simp add: wf_maze_def)
  then have i: "py_index (grid m) 1 = Some 1" by (simp add: py_index_def)
  from l have "grid m ! 1 \<in> set (grid m)" by simp
  then have "int (length (grid m ! 1)) \<le> 1" using wf w by (simp add: wf_maze_def)
  then have "py_index (grid m ! 1) 1 = None" by (simp add: py_index_def)
  then show ?thesis using i by (simp add: grid_set_def py_set_def)
qed

lemma generate_small_fails:
  assumes "wf_maze m" and "start m = (1, 1)" and "width m \<le> 1 \<or> height m \<le> 1"
  shows "generate rnd m = Inl IndexError"
  using grid_set_11_fails[OF assms(1,3)] assms(2) by (simp add: generate_def)

lemma generate_Maze_init:
  assumes "2 \<le> w" and "2 \<le> h"
  shows "\<exists>m2. gen_inv m2 [] \<and> is_open m2 (1, 1) \<and> is_open m2 (end_pos (Maze_init w h))
            \<and> width m2 = width (Maze_init w h) \<and> height m2 = height (Maze_init w h)
            \<and> start m2 = (1, 1) \<and> end_pos m2 = end_pos (Maze_init w h)
            \<and> generate rnd (Maze_init w h)
                = Inr (put (put m2 (1, 1) CHR ''S'') (end_pos (Maze_init w h)) CHR ''E'')"
  using generate_wf[OF wf_Maze_init all_walls_Maze_init Maze_init_simps(4,5) odd_Maze_init, of w h rnd]
    assms by (simp add: Maze_init_dims_ge3 Maze_init_simps(4))

section \<open>Bounds of the grid accesses and the constructor on bad dimensions\<close>

text \<open>
  Claim C10. When a normalised dimension is 1, the first grid write of
  \<^verbatim>\<open>generate\<close>, at \<open>start = (1, 1)\<close>, is out of range and \<^verbatim>\<open>generate\<close> raises
  \<^verbatim>\<open>IndexError\<close>; \<^verbatim>\<open>generate\<close> returns exactly when both normalised dimensions
  are at least 3.
\<close>

theorem generate_in_bounds_iff:
  "(width (Maze_init w h) = 1 \<or> height (Maze_init w h) = 1 \<longrightarrow>
      grid_set (grid (Maze_init w h)) (fst (start (Maze_init w h))) (snd (start (Maze_init w h)))
         CHR '' '' = Inl IndexError
      \<and> generate rnd (Maze_init w h) = Inl IndexError)
   \<and> ((\<exists>m'. generate rnd (Maze_init w h) = Inr m')
        \<longleftrightarrow> 3 \<le> width (Maze_init w h) \<and> 3 \<le> height (Maze_init w h))"
proof (intro conjI impI iffI)
  assume "width (Maze_init w h) = 1 \<or> height (Maze_init w h) = 1"
  then have small: "width (Maze_init w h) \<le> 1 \<or> height (Maze_init w h) \<le> 1" by auto
  from grid_set_11_fails[OF wf_Maze_init small]
  show "grid_set (grid (Maze_init w h)) (fst (start (Maze_init w h))) (snd (start (Maze_init w h)))
         CHR '' '' = Inl IndexError"
    by (simp add: Maze_init_simps(4))
  from generate_small_fails[OF wf_Maze_init Maze_init_simps(4) small]
  show "generate rnd (Maze_init w h) = Inl IndexError" .
next
  assume ex: "\<exists>m'. generate rnd (Maze_init w h) = Inr m'"
  show "3 \<le> width (Maze_init w h)"
  proof (rule ccontr)
    assume "\<not> 3 \<le> width (Maze_init w h)"
    with odd_Maze_init(1)[of w h] have "width (Maze_init w h) \<le> 1" by presburger
    then have "generate rnd (Maze_init w h) = Inl IndexError"
      by (intro generate_small_fails wf_Maze_init Maze_init_simps(4)) simp
    with ex show False by simp
  qed
  show "3 \<le> height (Maze_init w h)"
  proof (rule ccontr)
    assume "\<not> 3 \<le> height (Maze_init w h)"
    with odd_Maze_init(2)[of w h] have "height (Maze_init w h) \<le> 1" by presburger
    then have "generate rnd (Maze_init w h) = Inl IndexError"
      by (intro generate_small_fails wf_Maze_init Maze_init_simps(4)) simp
    with ex show False by simp
  qed
next
  assume "3 \<le> width (Maze_init w h) \<and> 3 \<le> height (Maze_init w h)"
  then have "2 \<le> w" "2 \<le> h" by (simp_all add: Maze_init_dims_ge3)
  from generate_Maze_init[OF this, of rnd] show "\<exists>m'. generate rnd (Maze_init w h) = Inr m'"
    by blast
qed

theorem generate_in_bounds_iff_witness:
  "width (Maze_init 0 5) = 1
   \<and> generate first_choice (Maze_init 0 5) = Inl IndexError
   \<and> (\<exists>m'. generate first_choice (Maze_init 5 5) = Inr m')
   \<and> width (Maze_init 5 5) = 5 \<and> height (Maze_init 5 5) = 5"
proof -
  have w: "width (Maze_init 0 5) = 1" by (simp add: Maze_init_simps)
  have d: "width (Maze_init 5 5) = 5" "height (Maze_init 5 5) = 5" by (simp_all add: Maze_init_simps)
  from generate_in_bounds_iff[of 0 5 first_choice] w
  have 1: "generate first_choice (Maze_init 0 5) = Inl IndexError" by blast
  from generate_in_bounds_iff[of 5 5 first_choice] d
  have 2: "\<exists>m'. generate first_choice (Maze_init 5 5) = Inr m'" by simp
  show ?thesis using w d 1 2 by blast
qed

text \<open>
  Claim C7 as the code has it. The constructor checks nothing: for a non-positive
  \<open>width\<close> or \<open>height\<close> it raises no error and returns a maze whose grid is
  degenerate (a normalised dimension of at most 1, so at most one row or rows
  of at most one cell, all walls). The failure comes later: \<^verbatim>\<open>generate\<close> on such
  a maze raises \<^verbatim>\<open>IndexError\<close>.
\<close>

theorem Maze_init_nonpositive_not_rejected:
  assumes "w \<le> 0 \<or> h \<le> 0"
  shows "(width (Maze_init w h) \<le> 1 \<or> height (Maze_init w h) \<le> 1)
       \<and> grid (Maze_init w h)
           = replicate (nat (height (Maze_init w h))) (replicate (nat (width (Maze_init w h))) CHR ''#'')
       \<and> generate rnd (Maze_init w h) = Inl IndexError"
proof -
  from assms have small: "width (Maze_init w h) \<le> 1 \<or> height (Maze_init w h) \<le> 1"
    unfolding Maze_init_dims_le1 by auto
  from generate_small_fails[OF wf_Maze_init Maze_init_simps(4) small] small
  show ?thesis by (simp add: Maze_init_simps(3))
qed

theorem Maze_init_nonpositive_not_rejected_witness:
  "((0::int) \<le> 0 \<or> (7::int) \<le> 0)
   \<and> width (Maze_init 0 7) = 1 \<and> grid (Maze_init 0 7) = replicate 7 ''#''
   \<and> generate first_choice (Maze_init 0 7) = Inl IndexError"
proof -
  have d: "width (Maze_init 0 7) = 1" "height (Maze_init 0 7) = 7" by (simp_all add: Maze_init_simps)
  from Maze_init_nonpositive_not_rejected[of 0 7 first_choice] d show ?thesis by simp
qed

theorem Maze_init_nonpositive_counterexample:
  "Maze_init 0 (-2) = \<lparr> width = 1, height = -1, grid = [], start = (1, 1), end_pos = (-3, -1) \<rparr>
   \<and> Maze_init 0 0 = \<lparr> width = 1, height = 1, grid = [''#''], start = (1, 1), end_pos = (-1, -1) \<rparr>"
  by (simp add: Maze_init_def)

section \<open>Properties of the generated maze\<close>

text \<open>\<open>open_path\<close>: a non-empty sequence of open cells, consecutive ones one move
  apart. \<open>generated_3x3\<close> and \<open>generated_5x5\<close> are the mazes that \<^verbatim>\<open>generate\<close>
  builds when every random choice takes the first candidate.\<close>

definition open_path :: "maze \<Rightarrow> coord list \<Rightarrow> bool" where
  "open_path m p = (p \<noteq> [] \<and> (\<forall>x \<in> set p. is_open m x) \<and> successively adjacent p)"

definition simple_path :: "maze \<Rightarrow> coord \<Rightarrow> coord \<Rightarrow> coord list \<Rightarrow> bool" where
  "simple_path m a b p = (open_path m p \<and> hd p = a \<and> last p = b \<and> distinct p)"

definition perfect_maze :: "maze \<Rightarrow> bool" where
  "perfect_maze m =
     ((\<forall>v. is_open m v \<longrightarrow> (\<exists>p. open_path m p \<and> hd p = start m \<and> last p = v))
      \<and> (\<forall>a b. is_open m a \<and> is_open m b \<longrightarrow> (\<exists>!p. simple_path m a b p)))"

definition generated_3x3 :: maze where
  "generated_3x3 = \<lparr> width = 3, height = 3, grid = [''###'', ''#E#'', ''###''],
                      start = (1, 1), end_pos = (1, 1) \<rparr>"

definition generated_5x5 :: maze where
  "generated_5x5 = \<lparr> width = 5, height = 5,
                      grid = [''#####'', ''#S  #'', ''### #'', ''#  E#'', ''#####''],
                      start = (1, 1), end_pos = (3, 3) \<rparr>"

lemma generate_3x3: "generate first_choice (Maze_init 3 3) = Inr generated_3x3"
  by code_simp

lemma generate_5x5: "generate first_choice (Maze_init 5 5) = Inr generated_5x5"
  by code_simp

lemma simple_path_spath: "simple_path m a b p = spath adjacent (opens m) a b p"
  unfolding simple_path_def open_path_def spath_def opens_def by auto

lemma perfect_maze_unique_paths:
  assumes up: "unique_paths adjacent (opens m)" and s: "is_open m (start m)"
  shows "perfect_maze m"
  unfolding perfect_maze_def
proof (intro conjI allI impI)
  fix v assume v: "is_open m v"
  with up s obtain p where "spath adjacent (opens m) (start m) v p"
    unfolding unique_paths_def opens_def by blast
  then have "open_path m p \<and> hd p = start m \<and> last p = v"
    unfolding simple_path_spath[symmetric] simple_path_def by simp
  then show "\<exists>p. open_path m p \<and> hd p = start m \<and> last p = v" ..
next
  fix a b assume "is_open m a \<and> is_open m b"
  then have "a \<in> opens m" "b \<in> opens m" by (simp_all add: opens_def)
  with up show "\<exists>!p. simple_path m a b p"
    unfolding unique_paths_def simple_path_spath by blast
qed

text \<open>What \<^verbatim>\<open>generate\<close> returns on a maze from the constructor with inputs of at
  least 2 (normalised dimensions of at least 3).\<close>

lemma generate_summary:
  assumes "2 \<le> w" and "2 \<le> h"
  shows "\<exists>m'. generate rnd (Maze_init w h) = Inr m'
            \<and> wf_maze m' \<and> lattice_ok m' \<and> unique_paths adjacent (opens m')
            \<and> width m' = width (Maze_init w h) \<and> height m' = height (Maze_init w h)
            \<and> start m' = (1, 1) \<and> end_pos m' = (height m' - 2, width m' - 2)
            \<and> is_open m' (1, 1) \<and> is_open m' (end_pos m')
            \<and> (\<forall>q. is_valid m' (fst q) (snd q) \<longrightarrow>
                  (q = end_pos m' \<longrightarrow> cell m' q = CHR ''E'')
                  \<and> (q \<noteq> end_pos m' \<and> q = (1, 1) \<longrightarrow> cell m' q = CHR ''S'')
                  \<and> (q \<noteq> end_pos m' \<and> q \<noteq> (1, 1) \<longrightarrow> cell m' q = CHR ''#'' \<or> cell m' q = CHR '' ''))"
proof -
  let ?e = "end_pos (Maze_init w h)"
  from generate_Maze_init[OF assms, of rnd] obtain m2 where
    inv: "gen_inv m2 []" and o1: "is_open m2 (1, 1)" and oe: "is_open m2 ?e"
    and f: "width m2 = width (Maze_init w h)" "height m2 = height (Maze_init w h)"
           "start m2 = (1, 1)" "end_pos m2 = ?e"
    and g: "generate rnd (Maze_init w h) = Inr (put (put m2 (1, 1) CHR ''S'') ?e CHR ''E'')"
    by blast
  let ?m' = "put (put m2 (1, 1) CHR ''S'') ?e CHR ''E''"
  have wf2: "wf_maze m2" and ok2: "lattice_ok m2" and up2: "unique_paths adjacent (opens m2)"
    and cells2: "\<forall>p. is_valid m2 (fst p) (snd p) \<longrightarrow> cell m2 p = CHR ''#'' \<or> cell m2 p = CHR '' ''"
    using inv unfolding gen_inv_def by blast+
  have same: "is_open ?m' q = is_open m2 q" for q
    using marks_keep_open[OF wf2 o1 oe, of "CHR ''S''" "CHR ''E''" q] by simp
  have wf': "wf_maze ?m'" by (intro wf_put wf2)
  have ok': "lattice_ok ?m'" using lattice_ok_cong[of ?m' m2] same ok2 by simp
  have up': "unique_paths adjacent (opens ?m')" using opens_cong[of ?m' m2] same up2 by simp
  have v1: "is_valid m2 (fst (1, 1)) (snd (1, 1))" and ve: "is_valid m2 (fst ?e) (snd ?e)"
    using o1 oe by (simp_all add: is_open_def)
  have en: "end_pos ?m' = (height ?m' - 2, width ?m' - 2)"
    using f by (simp add: Maze_init_simps(5))
  have cells': "cell ?m' q = (if q = ?e then CHR ''E'' else if q = (1, 1) then CHR ''S'' else cell m2 q)"
    if "is_valid ?m' (fst q) (snd q)" for q
    using marks_cell[OF wf2 v1 ve, of q] that by simp
  have c: "\<forall>q. is_valid ?m' (fst q) (snd q) \<longrightarrow>
                  (q = end_pos ?m' \<longrightarrow> cell ?m' q = CHR ''E'')
                  \<and> (q \<noteq> end_pos ?m' \<and> q = (1, 1) \<longrightarrow> cell ?m' q = CHR ''S'')
                  \<and> (q \<noteq> end_pos ?m' \<and> q \<noteq> (1, 1) \<longrightarrow> cell ?m' q = CHR ''#'' \<or> cell ?m' q = CHR '' '')"
  proof (intro allI impI)
    fix q assume vq: "is_valid ?m' (fst q) (snd q)"
    then have "is_valid m2 (fst q) (snd q)" by simp
    with cells2 have "cell m2 q = CHR ''#'' \<or> cell m2 q = CHR '' ''" by blast
    with cells'[OF vq] f(4)
    show "(q = end_pos ?m' \<longrightarrow> cell ?m' q = CHR ''E'')
                  \<and> (q \<noteq> end_pos ?m' \<and> q = (1, 1) \<longrightarrow> cell ?m' q = CHR ''S'')
                  \<and> (q \<noteq> end_pos ?m' \<and> q \<noteq> (1, 1) \<longrightarrow> cell ?m' q = CHR ''#'' \<or> cell ?m' q = CHR '' '')"
      by (cases "q = ?e"; cases "q = (1, 1)") auto
  qed
  have oo: "is_open ?m' (1, 1)" "is_open ?m' (end_pos ?m')" using same o1 oe f by simp_all
  have ff: "width ?m' = width (Maze_init w h)" "height ?m' = height (Maze_init w h)"
    "start ?m' = (1, 1)" using f by simp_all
  show ?thesis
    by (intro exI[of _ ?m'] conjI g wf' ok' up' ff en oo c)
qed

lemma generate_junctions_open:
  assumes "2 \<le> w" and "2 \<le> h" and g: "generate rnd (Maze_init w h) = Inr m'"
    and v: "is_valid m' r c" and odd: "odd r" "odd c"
  shows "is_open m' (r, c)"
proof -
  let ?e = "end_pos (Maze_init w h)"
  from generate_Maze_init[OF assms(1,2), of rnd] obtain m2 where
    inv: "gen_inv m2 []" and o1: "is_open m2 (1, 1)" and oe: "is_open m2 ?e"
    and g2: "generate rnd (Maze_init w h) = Inr (put (put m2 (1, 1) CHR ''S'') ?e CHR ''E'')"
    by blast
  have m': "m' = put (put m2 (1, 1) CHR ''S'') ?e CHR ''E''" using g g2 by simp
  have wf2: "wf_maze m2" using inv by (simp add: gen_inv_def)
  have v2: "is_valid m2 r c" using v unfolding m' by simp
  have "is_open m2 (r, c)" using inv o1 v2 odd by (rule all_junctions_open)
  then show ?thesis
    unfolding m' using marks_keep_open[OF wf2 o1 oe, of "CHR ''S''" "CHR ''E''" "(r, c)"] by simp
qed

text \<open>
  Claim C1. For odd \<open>width, height \<ge> 3\<close>, \<^verbatim>\<open>generate\<close> returns a maze of the
  same dimensions in which \<open>start\<close>, \<open>end\<close> and every cell on an odd row and an
  odd column are open, and whose open cells form a perfect maze: every open cell
  is reached from \<open>start\<close> by 4-directional moves through open cells, and between
  any two open cells there is exactly one simple path.
\<close>

theorem generate_perfect_maze:
  assumes "odd w" and "odd h" and "3 \<le> w" and "3 \<le> h"
  shows "\<exists>m'. generate rnd (Maze_init w h) = Inr m' \<and> perfect_maze m'
            \<and> width m' = w \<and> height m' = h
            \<and> start m' = (1, 1) \<and> end_pos m' = (h - 2, w - 2)
            \<and> is_open m' (start m') \<and> is_open m' (end_pos m')
            \<and> (\<forall>r c. is_valid m' r c \<and> odd r \<and> odd c \<longrightarrow> is_open m' (r, c))"
proof -
  from assms have w2: "2 \<le> w" "2 \<le> h" by simp_all
  from generate_summary[OF this, of rnd] obtain m' where
    g: "generate rnd (Maze_init w h) = Inr m'" and up: "unique_paths adjacent (opens m')"
    and d: "width m' = width (Maze_init w h)" "height m' = height (Maze_init w h)"
    and s: "start m' = (1, 1)" "is_open m' (1, 1)"
    and e: "end_pos m' = (height m' - 2, width m' - 2)" "is_open m' (end_pos m')"
    by blast
  have dims: "width m' = w" "height m' = h"
    using d assms(1,2) unfolding Maze_init_simps by presburger+
  have pm: "perfect_maze m'" using up s by (intro perfect_maze_unique_paths) simp_all
  have j: "\<forall>r c. is_valid m' r c \<and> odd r \<and> odd c \<longrightarrow> is_open m' (r, c)"
    using generate_junctions_open[OF w2 g] by blast
  have so: "is_open m' (start m')" using s by simp
  have en: "end_pos m' = (h - 2, w - 2)" using e(1) dims by simp
  show ?thesis
    by (intro exI[of _ m'] conjI g pm dims s(1) en so e(2) j)
qed

theorem generate_perfect_maze_witness:
  "odd (5::int) \<and> (3::int) \<le> 5
   \<and> generate first_choice (Maze_init 5 5) = Inr generated_5x5 \<and> perfect_maze generated_5x5
   \<and> is_open generated_5x5 (start generated_5x5) \<and> is_open generated_5x5 (end_pos generated_5x5)
   \<and> is_open generated_5x5 (1, 3) \<and> is_open generated_5x5 (3, 1)"
proof -
  have v: "is_valid generated_5x5 1 3" "is_valid generated_5x5 3 1"
    by (simp_all add: is_valid_def generated_5x5_def)
  from generate_perfect_maze[of 5 5 first_choice] obtain m' where
    "generate first_choice (Maze_init 5 5) = Inr m'" "perfect_maze m'"
    "is_open m' (start m')" "is_open m' (end_pos m')"
    "\<forall>r c. is_valid m' r c \<and> odd r \<and> odd c \<longrightarrow> is_open m' (r, c)"
    by auto
  then have "perfect_maze generated_5x5"
    "is_open generated_5x5 (start generated_5x5)" "is_open generated_5x5 (end_pos generated_5x5)"
    "\<forall>r c. is_valid generated_5x5 r c \<and> odd r \<and> odd c \<longrightarrow> is_open generated_5x5 (r, c)"
    by (simp_all add: generate_5x5)
  with v show ?thesis by (simp add: generate_5x5)
qed

text \<open>
  Claim C6 as the code has it. The carving starts at \<open>(1, 1)\<close> and moves two cells
  at a time, so after \<^verbatim>\<open>generate\<close> every open cell is a junction on an odd row and
  an odd column, or a connector with one even coordinate that lies between two
  open junctions; no open cell has two even coordinates.
\<close>

theorem generate_lattice:
  assumes "2 \<le> w" and "2 \<le> h"
  shows "\<exists>m'. generate rnd (Maze_init w h) = Inr m' \<and> lattice_ok m'
            \<and> (\<forall>r c. is_open m' (r, c) \<longrightarrow> odd r \<or> odd c)"
proof -
  from generate_summary[OF assms, of rnd] obtain m' where
    g: "generate rnd (Maze_init w h) = Inr m'" and ok: "lattice_ok m'"
    by blast
  have "\<forall>r c. is_open m' (r, c) \<longrightarrow> odd r \<or> odd c"
    using lattice_okD[OF ok] by blast
  with g ok show ?thesis by blast
qed

theorem generate_lattice_witness:
  "(2::int) \<le> 5
   \<and> generate first_choice (Maze_init 5 5) = Inr generated_5x5 \<and> lattice_ok generated_5x5"
  using generate_lattice[of 5 5 first_choice] by (simp add: generate_5x5)

theorem junction_parity_counterexample:
  "generate first_choice (Maze_init 5 5) = Inr generated_5x5
   \<and> is_open generated_5x5 (1, 3) \<and> odd (1::int) \<and> odd (3::int)
   \<and> is_open generated_5x5 (1, 2) \<and> even (2::int)
   \<and> is_open generated_5x5 (1, 1) \<and> \<not> is_open generated_5x5 (2, 2)"
proof -
  have "is_open generated_5x5 (1, 3)" "is_open generated_5x5 (1, 2)"
    "is_open generated_5x5 (1, 1)" "\<not> is_open generated_5x5 (2, 2)"
    by code_simp+
  then show ?thesis by (simp add: generate_5x5)
qed

text \<open>
  Claim C5 as the code has it. When both normalised dimensions are at least 3
  and not both 3 (inputs of at least 2, one of them at least 4), the generated
  grid has \<open>S\<close> exactly at \<open>(1, 1)\<close> and \<open>E\<close> exactly at
  \<open>(height - 2, width - 2)\<close>.
\<close>

theorem generate_marks:
  assumes "2 \<le> w" and "2 \<le> h" and "4 \<le> w \<or> 4 \<le> h"
  shows "\<exists>m'. generate rnd (Maze_init w h) = Inr m'
            \<and> start m' = (1, 1) \<and> end_pos m' = (height m' - 2, width m' - 2)
            \<and> is_valid m' 1 1 \<and> is_valid m' (height m' - 2) (width m' - 2)
            \<and> (\<forall>r c. is_valid m' r c \<longrightarrow>
                  (grid_get (grid m') r c = Inr CHR ''S'' \<longleftrightarrow> (r, c) = (1, 1))
                \<and> (grid_get (grid m') r c = Inr CHR ''E'' \<longleftrightarrow> (r, c) = (height m' - 2, width m' - 2)))"
proof -
  from generate_summary[OF assms(1,2), of rnd] obtain m' where
    g: "generate rnd (Maze_init w h) = Inr m'" and wf: "wf_maze m'"
    and d: "width m' = width (Maze_init w h)" "height m' = height (Maze_init w h)"
    and s: "start m' = (1, 1)" and e: "end_pos m' = (height m' - 2, width m' - 2)"
    and o: "is_open m' (1, 1)" "is_open m' (end_pos m')"
    and c: "\<forall>q. is_valid m' (fst q) (snd q) \<longrightarrow>
                  (q = end_pos m' \<longrightarrow> cell m' q = CHR ''E'')
                  \<and> (q \<noteq> end_pos m' \<and> q = (1, 1) \<longrightarrow> cell m' q = CHR ''S'')
                  \<and> (q \<noteq> end_pos m' \<and> q \<noteq> (1, 1) \<longrightarrow> cell m' q = CHR ''#'' \<or> cell m' q = CHR '' '')"
    by blast
  have big: "5 \<le> width m' \<or> 5 \<le> height m'"
    using assms(3) unfolding d Maze_init_simps by presburger
  then have ne: "end_pos m' \<noteq> (1, 1)" unfolding e by auto
  have v: "is_valid m' 1 1" "is_valid m' (height m' - 2) (width m' - 2)"
    using o unfolding e by (simp_all add: is_open_def)
  have marks: "(grid_get (grid m') r c = Inr CHR ''S'' \<longleftrightarrow> (r, c) = (1, 1))
             \<and> (grid_get (grid m') r c = Inr CHR ''E'' \<longleftrightarrow> (r, c) = (height m' - 2, width m' - 2))"
    if vq: "is_valid m' r c" for r c
  proof -
    have gg: "grid_get (grid m') r c = Inr (cell m' (r, c))" using wf vq by (rule grid_get_valid)
    from c vq have
      "((r, c) = end_pos m' \<longrightarrow> cell m' (r, c) = CHR ''E'')
        \<and> ((r, c) \<noteq> end_pos m' \<and> (r, c) = (1, 1) \<longrightarrow> cell m' (r, c) = CHR ''S'')
        \<and> ((r, c) \<noteq> end_pos m' \<and> (r, c) \<noteq> (1, 1) \<longrightarrow>
              cell m' (r, c) = CHR ''#'' \<or> cell m' (r, c) = CHR '' '')"
      by (metis fst_conv snd_conv)
    with ne show ?thesis unfolding gg e by (cases "(r, c) = (1, 1)"; cases "(r, c) = (height m' - 2, width m' - 2)") auto
  qed
  show ?thesis using g s e v marks by blast
qed

theorem generate_marks_witness:
  "(2::int) \<le> 5 \<and> ((4::int) \<le> 5 \<or> (4::int) \<le> 5)
   \<and> generate first_choice (Maze_init 5 5) = Inr generated_5x5
   \<and> grid_get (grid generated_5x5) 1 1 = Inr CHR ''S''
   \<and> grid_get (grid generated_5x5) 3 3 = Inr CHR ''E''
   \<and> grid_get (grid generated_5x5) 1 2 = Inr CHR '' ''"
proof -
  have v: "is_valid generated_5x5 1 1" "is_valid generated_5x5 3 3" "is_valid generated_5x5 1 2"
    and d: "height generated_5x5 = 5" "width generated_5x5 = 5"
    by (simp_all add: is_valid_def generated_5x5_def)
  have sp: "grid_get (grid generated_5x5) 1 2 = Inr CHR '' ''" by code_simp
  from generate_marks[of 5 5 first_choice] v d sp show ?thesis
    by (simp add: generate_5x5)
qed

theorem generate_marks_counterexample:
  "generate first_choice (Maze_init 3 3) = Inr generated_3x3
   \<and> CHR ''S'' \<notin> set (concat (grid generated_3x3))
   \<and> grid_get (grid generated_3x3) 1 1 = Inr CHR ''E''
   \<and> generate first_choice (Maze_init 1 1) = Inl IndexError"
proof -
  have "CHR ''S'' \<notin> set (concat (grid generated_3x3))" by (simp add: generated_3x3_def)
  moreover have "grid_get (grid generated_3x3) 1 1 = Inr CHR ''E''" by code_simp
  moreover have "generate first_choice (Maze_init 1 1) = Inl IndexError" by code_simp
  ultimately show ?thesis by (simp add: generate_3x3)
qed

section \<open>Distances in the grid graph\<close>

text \<open>\<^verbatim>\<open>solve\<close> moves from a cell to a neighbour one step away that is inside the
  grid and not a wall: an \<open>edge\<close>. \<open>reach m s n v\<close>: \<open>n\<close> such moves lead from \<open>s\<close> to
  \<open>v\<close>; \<open>dist\<close> is the least such \<open>n\<close>.\<close>

definition edge :: "maze \<Rightarrow> coord \<Rightarrow> coord \<Rightarrow> bool" where
  "edge m u v = (adjacent u v \<and> is_open m v)"

inductive reach :: "maze \<Rightarrow> coord \<Rightarrow> nat \<Rightarrow> coord \<Rightarrow> bool" for m :: maze and s :: coord where
  reach_start: "reach m s 0 s"
| reach_step: "reach m s n u \<Longrightarrow> edge m u v \<Longrightarrow> reach m s (Suc n) v"

definition reachable :: "maze \<Rightarrow> coord \<Rightarrow> coord \<Rightarrow> bool" where
  "reachable m s v = (\<exists>n. reach m s n v)"

definition dist :: "maze \<Rightarrow> coord \<Rightarrow> coord \<Rightarrow> nat" where
  "dist m s v = (LEAST n. reach m s n v)"

lemma reach_0_iff: "reach m s 0 v \<longleftrightarrow> v = s"
  by (auto elim: reach.cases intro: reach_start)

lemma reach_Suc_iff: "reach m s (Suc n) v \<longleftrightarrow> (\<exists>u. reach m s n u \<and> edge m u v)"
proof
  assume "reach m s (Suc n) v"
  then show "\<exists>u. reach m s n u \<and> edge m u v" by cases blast
next
  assume "\<exists>u. reach m s n u \<and> edge m u v"
  then show "reach m s (Suc n) v" by (blast intro: reach_step)
qed

lemma dist_le: "reach m s n v \<Longrightarrow> dist m s v \<le> n"
  unfolding dist_def by (rule Least_le)

lemma dist_reach: "reachable m s v \<Longrightarrow> reach m s (dist m s v) v"
  unfolding dist_def reachable_def by (erule exE) (rule LeastI)

lemma dist_start: "dist m s s = 0"
  using dist_le[OF reach_start, of m s] by simp

lemma dist_0_iff: "reachable m s v \<Longrightarrow> dist m s v = 0 \<longleftrightarrow> v = s"
  using dist_reach[of m s v] by (auto simp: reach_0_iff dist_start)

lemma reachable_start: "reachable m s s"
  unfolding reachable_def by (blast intro: reach_start)

lemma reachable_edge: "reachable m s u \<Longrightarrow> edge m u v \<Longrightarrow> reachable m s v"
  unfolding reachable_def by (blast intro: reach_step)

lemma dist_edge: "reachable m s u \<Longrightarrow> edge m u v \<Longrightarrow> dist m s v \<le> Suc (dist m s u)"
  by (blast intro: dist_le reach_step dist_reach)

lemma dist_pred:
  assumes r: "reachable m s v" and d: "dist m s v = Suc k"
  shows "\<exists>x. reachable m s x \<and> edge m x v \<and> dist m s x = k"
proof -
  from dist_reach[OF r] d obtain x where x: "reach m s k x" and e: "edge m x v"
    by (auto simp: reach_Suc_iff)
  have rx: "reachable m s x" using x unfolding reachable_def by blast
  have "dist m s x \<le> k" using x by (rule dist_le)
  moreover have "Suc k \<le> Suc (dist m s x)" using dist_edge[OF rx e] d by simp
  ultimately have "dist m s x = k" by simp
  with rx e show ?thesis by blast
qed

text \<open>A sequence of cells in which every move is an edge is a walk of the graph.\<close>

lemma walk_reach:
  "p \<noteq> [] \<Longrightarrow> successively (edge m) p \<Longrightarrow> reach m s n (hd p)
     \<Longrightarrow> reach m s (n + length p - 1) (last p)"
proof (induction p arbitrary: n)
  case Nil then show ?case by simp
next
  case (Cons a p)
  show ?case
  proof (cases p)
    case Nil with Cons.prems show ?thesis by simp
  next
    case (Cons b q)
    with Cons.prems have e: "edge m a b" and s: "successively (edge m) p" and r: "reach m s n a"
      by simp_all
    have "reach m s (Suc n) (hd p)" using reach_step[OF r e] Cons by simp
    from Cons.IH[OF _ s this] Cons show ?thesis by simp
  qed
qed

section \<open>Correctness of the breadth-first search\<close>

definition fresh_neighbors :: "maze \<Rightarrow> coord \<Rightarrow> (int \<times> int) list \<Rightarrow> coord set \<Rightarrow> coord list" where
  "fresh_neighbors m u ds V =
     filter (\<lambda>v. is_open m v \<and> v \<notin> V) (map (\<lambda>d. (fst u + fst d, snd u + snd d)) ds)"

lemma visit_neighbors_wf:
  assumes wf: "wf_maze m"
  shows "distinct (map (\<lambda>d. (fst u + fst d, snd u + snd d)) ds) \<Longrightarrow>
    \<exists>s'. visit_neighbors m u ds s = Inr s'
        \<and> queue s' = queue s @ fresh_neighbors m u ds (visited s)
        \<and> visited s' = visited s \<union> set (fresh_neighbors m u ds (visited s))
        \<and> parent_map s' = (\<lambda>v. if v \<in> set (fresh_neighbors m u ds (visited s))
                                 then Some (Some u) else parent_map s v)"
proof (induction ds arbitrary: s)
  case Nil
  then show ?case by (simp add: fresh_neighbors_def)
next
  case (Cons d ds)
  let ?n = "(fst u + fst d, snd u + snd d)"
  let ?f = "\<lambda>d. (fst u + fst d, snd u + snd d)"
  have dis: "distinct (map ?f ds)" and nin: "?n \<notin> set (map ?f ds)" using Cons.prems by simp_all
  show ?case
  proof (cases "is_open m ?n \<and> ?n \<notin> visited s")
    case True
    then have v: "is_valid m (fst ?n) (snd ?n)" and c: "cell m ?n \<noteq> CHR ''#''"
      by (simp_all add: is_open_def)
    have gg: "grid_get (grid m) (fst u + fst d) (snd u + snd d) = Inr (cell m ?n)"
      using grid_get_valid[OF wf, of "fst ?n" "snd ?n"] v by simp
    let ?s1 = "s\<lparr> visited := insert ?n (visited s), queue := queue s @ [?n],
                   parent_map := (parent_map s)(?n \<mapsto> Some u) \<rparr>"
    have step: "visit_neighbors m u (d # ds) s = visit_neighbors m u ds ?s1"
      using True v c gg by (simp add: Let_def)
    have fr1: "fresh_neighbors m u ds (visited ?s1) = fresh_neighbors m u ds (visited s)"
      unfolding fresh_neighbors_def using nin by (intro filter_cong) auto
    have fr: "fresh_neighbors m u (d # ds) (visited s) = ?n # fresh_neighbors m u ds (visited s)"
      using True by (simp add: fresh_neighbors_def)
    from Cons.IH[OF dis, of ?s1] obtain s' where
      r: "visit_neighbors m u ds ?s1 = Inr s'"
      and q: "queue s' = queue ?s1 @ fresh_neighbors m u ds (visited ?s1)"
      and vi: "visited s' = visited ?s1 \<union> set (fresh_neighbors m u ds (visited ?s1))"
      and pm: "parent_map s' = (\<lambda>v. if v \<in> set (fresh_neighbors m u ds (visited ?s1))
                                 then Some (Some u) else parent_map ?s1 v)"
      by blast
    have "parent_map s' = (\<lambda>v. if v \<in> set (fresh_neighbors m u (d # ds) (visited s))
                                 then Some (Some u) else parent_map s v)"
      unfolding pm fr1 fr by (auto simp: fun_eq_iff)
    with r q vi show ?thesis unfolding step fr1 fr by simp
  next
    case False
    have step: "visit_neighbors m u (d # ds) s = visit_neighbors m u ds s"
    proof (cases "is_valid m (fst ?n) (snd ?n)")
      case True
      have gg: "grid_get (grid m) (fst u + fst d) (snd u + snd d) = Inr (cell m ?n)"
        using grid_get_valid[OF wf, of "fst ?n" "snd ?n"] True by simp
      from False True have "cell m ?n = CHR ''#'' \<or> ?n \<in> visited s" by (auto simp: is_open_def)
      then show ?thesis using True gg by (auto simp: Let_def)
    next
      case False then show ?thesis by (simp add: Let_def)
    qed
    have fr: "fresh_neighbors m u (d # ds) (visited s) = fresh_neighbors m u ds (visited s)"
      using False by (simp add: fresh_neighbors_def)
    from Cons.IH[OF dis, of s] show ?thesis unfolding step fr .
  qed
qed

lemma solve_directions_distinct:
  "distinct (map (\<lambda>d. (fst u + fst d, snd u + snd d)) solve_directions)"
  by (simp add: solve_directions_def)

lemma fresh_neighbors_set:
  "set (fresh_neighbors m u solve_directions V) = {v. edge m u v \<and> v \<notin> V}"
proof -
  obtain a b where u: "u = (a, b)" by (cases u)
  show ?thesis
    unfolding fresh_neighbors_def edge_def u adjacent_cases solve_directions_def
    by (auto simp: add.commute)
qed


text \<open>The facts about the parent dictionary, and the facts about the queue, that
  hold whenever the loop of \<^verbatim>\<open>solve\<close> is at its head.\<close>

definition pinv :: "maze \<Rightarrow> bfs_state \<Rightarrow> bool" where
  "pinv m st =
     (start m \<in> visited st \<and> parent_map st (start m) = Some None
      \<and> (\<forall>v \<in> visited st. reachable m (start m) v)
      \<and> (\<forall>v \<in> visited st. v \<noteq> start m \<longrightarrow>
            (\<exists>u \<in> visited st. parent_map st v = Some (Some u) \<and> edge m u v
                \<and> dist m (start m) v = Suc (dist m (start m) u))))"

definition qinv :: "maze \<Rightarrow> bfs_state \<Rightarrow> bool" where
  "qinv m st =
     (set (queue st) \<subseteq> visited st
      \<and> sorted (map (dist m (start m)) (queue st))
      \<and> (\<forall>x \<in> set (queue st). dist m (start m) x \<le> Suc (dist m (start m) (hd (queue st))))
      \<and> (\<forall>v \<in> visited st - set (queue st). \<forall>w. edge m v w \<longrightarrow> w \<in> visited st)
      \<and> (queue st \<noteq> [] \<longrightarrow>
            (\<forall>x. reachable m (start m) x \<and> dist m (start m) x < dist m (start m) (hd (queue st))
                  \<longrightarrow> x \<in> visited st))
      \<and> (end_pos m \<in> visited st \<longrightarrow> end_pos m \<in> set (queue st)))"

lemma pinvD:
  assumes "pinv m st"
  shows "start m \<in> visited st" and "parent_map st (start m) = Some None"
    and "\<And>v. v \<in> visited st \<Longrightarrow> reachable m (start m) v"
    and "\<And>v. v \<in> visited st \<Longrightarrow> v \<noteq> start m \<Longrightarrow>
            \<exists>u \<in> visited st. parent_map st v = Some (Some u) \<and> edge m u v
                \<and> dist m (start m) v = Suc (dist m (start m) u)"
proof -
  have a: "start m \<in> visited st"
    using assms unfolding pinv_def by (elim conjE)
  have b: "parent_map st (start m) = Some None"
    using assms unfolding pinv_def by (elim conjE)
  have c: "\<forall>v \<in> visited st. reachable m (start m) v"
    using assms unfolding pinv_def by (elim conjE)
  have d: "\<forall>v \<in> visited st. v \<noteq> start m \<longrightarrow>
            (\<exists>u \<in> visited st. parent_map st v = Some (Some u) \<and> edge m u v
                \<and> dist m (start m) v = Suc (dist m (start m) u))"
    using assms unfolding pinv_def by (elim conjE)
  show "start m \<in> visited st" by (rule a)
  show "parent_map st (start m) = Some None" by (rule b)
  show "reachable m (start m) v" if "v \<in> visited st" for v using c that by (rule bspec)
  show "\<exists>u \<in> visited st. parent_map st v = Some (Some u) \<and> edge m u v
                \<and> dist m (start m) v = Suc (dist m (start m) u)"
    if "v \<in> visited st" "v \<noteq> start m" for v
    using d[rule_format, OF that] .
qed

lemma qinvD:
  assumes "qinv m st"
  shows "set (queue st) \<subseteq> visited st"
    and "sorted (map (dist m (start m)) (queue st))"
    and "\<And>x. x \<in> set (queue st) \<Longrightarrow> dist m (start m) x \<le> Suc (dist m (start m) (hd (queue st)))"
    and "\<And>v w. v \<in> visited st \<Longrightarrow> v \<notin> set (queue st) \<Longrightarrow> edge m v w \<Longrightarrow> w \<in> visited st"
    and "\<And>x. queue st \<noteq> [] \<Longrightarrow> reachable m (start m) x
            \<Longrightarrow> dist m (start m) x < dist m (start m) (hd (queue st)) \<Longrightarrow> x \<in> visited st"
    and "end_pos m \<in> visited st \<Longrightarrow> end_pos m \<in> set (queue st)"
proof -
  have a: "set (queue st) \<subseteq> visited st"
    using assms unfolding qinv_def by (elim conjE)
  have b: "sorted (map (dist m (start m)) (queue st))"
    using assms unfolding qinv_def by (elim conjE)
  have c: "\<forall>x \<in> set (queue st). dist m (start m) x \<le> Suc (dist m (start m) (hd (queue st)))"
    using assms unfolding qinv_def by (elim conjE)
  have d: "\<forall>v \<in> visited st - set (queue st). \<forall>w. edge m v w \<longrightarrow> w \<in> visited st"
    using assms unfolding qinv_def by (elim conjE)
  have e: "queue st \<noteq> [] \<longrightarrow>
            (\<forall>x. reachable m (start m) x \<and> dist m (start m) x < dist m (start m) (hd (queue st))
                  \<longrightarrow> x \<in> visited st)"
    using assms unfolding qinv_def by (elim conjE)
  have f: "end_pos m \<in> visited st \<longrightarrow> end_pos m \<in> set (queue st)"
    using assms unfolding qinv_def by (elim conjE)
  show "set (queue st) \<subseteq> visited st" by (rule a)
  show "sorted (map (dist m (start m)) (queue st))" by (rule b)
  show "dist m (start m) x \<le> Suc (dist m (start m) (hd (queue st)))" if "x \<in> set (queue st)" for x
    using c that by (rule bspec)
  show "w \<in> visited st" if "v \<in> visited st" "v \<notin> set (queue st)" "edge m v w" for v w
  proof -
    from that have "v \<in> visited st - set (queue st)" by simp
    with d that(3) show ?thesis by blast
  qed
  show "x \<in> visited st" if "queue st \<noteq> []" "reachable m (start m) x"
      "dist m (start m) x < dist m (start m) (hd (queue st))" for x
    using e that by blast
  show "end_pos m \<in> set (queue st)" if "end_pos m \<in> visited st" using f that by (rule mp)
qed

lemma sorted_map_const: "(\<And>x. x \<in> set xs \<Longrightarrow> f x = c) \<Longrightarrow> sorted (map f xs)"
  by (induction xs) auto

lemma closed_reach:
  assumes s: "s \<in> V" and cl: "\<And>v w. v \<in> V \<Longrightarrow> edge m v w \<Longrightarrow> w \<in> V"
  shows "reach m s n x \<Longrightarrow> x \<in> V"
  by (induction rule: reach.induct) (auto intro: s cl)

lemma bfs_step:
  assumes p: "pinv m st" and q: "qinv m st" and qu: "queue st = u # rest"
    and q': "queue st' = rest @ news"
    and v': "visited st' = visited st \<union> set news"
    and pm': "parent_map st' = (\<lambda>v. if v \<in> set news then Some (Some u) else parent_map st v)"
    and news: "set news = {v. edge m u v \<and> v \<notin> visited st}"
    and ne: "u \<noteq> end_pos m"
  shows "pinv m st'" and "qinv m st'"
proof -
  let ?D = "dist m (start m)"
  have sv: "start m \<in> visited st" and ps: "parent_map st (start m) = Some None"
    and rv: "\<And>v. v \<in> visited st \<Longrightarrow> reachable m (start m) v"
    and par: "\<And>v. v \<in> visited st \<Longrightarrow> v \<noteq> start m \<Longrightarrow>
            \<exists>u \<in> visited st. parent_map st v = Some (Some u) \<and> edge m u v \<and> ?D v = Suc (?D u)"
    using pinvD[OF p] by blast+
  have qsub: "set (queue st) \<subseteq> visited st"
    and srt: "sorted (map ?D (queue st))"
    and span: "\<And>x. x \<in> set (queue st) \<Longrightarrow> ?D x \<le> Suc (?D (hd (queue st)))"
    and cl: "\<And>v w. v \<in> visited st \<Longrightarrow> v \<notin> set (queue st) \<Longrightarrow> edge m v w \<Longrightarrow> w \<in> visited st"
    and en: "end_pos m \<in> visited st \<Longrightarrow> end_pos m \<in> set (queue st)"
    using qinvD(1,2,3,4,6)[OF q] by blast+
  have qne: "queue st \<noteq> []" using qu by simp
  have lev: "x \<in> visited st" if "reachable m (start m) x" "?D x < ?D (hd (queue st))" for x
    using qinvD(5)[OF q qne that] .
  have hd: "hd (queue st) = u" using qu by simp
  have uv: "u \<in> visited st" using qsub qu by simp
  have ru: "reachable m (start m) u" using uv by (rule rv)
  have ge: "?D u \<le> ?D x" if "x \<in> set (queue st)" for x
    using srt that unfolding qu by auto
  \<comment> \<open>every reachable cell at distance at most that of \<open>u\<close> has been seen\<close>
  have low: "x \<in> visited st" if rx: "reachable m (start m) x" and dx: "?D x \<le> ?D u" for x
  proof (cases "?D x")
    case 0
    then have "x = start m" using dist_0_iff[OF rx] by simp
    then show ?thesis using sv by simp
  next
    case (Suc k)
    from dist_pred[OF rx Suc] obtain y where
      ry: "reachable m (start m) y" and e: "edge m y x" and dy: "?D y = k" by blast
    have lt: "?D y < ?D u" using dy Suc dx by simp
    then have yv: "y \<in> visited st" using lev[OF ry] hd by simp
    have "y \<notin> set (queue st)" using ge[of y] lt by auto
    from cl[OF yv this e] show ?thesis .
  qed
  have newd: "?D w = Suc (?D u)" if w: "w \<in> set news" for w
  proof -
    from w news have e: "edge m u w" and nv: "w \<notin> visited st" by auto
    have rw: "reachable m (start m) w" using ru e by (rule reachable_edge)
    have le: "?D w \<le> Suc (?D u)" using ru e by (rule dist_edge)
    have "\<not> ?D w \<le> ?D u" using low[OF rw] nv by blast
    with le show ?thesis by simp
  qed
  show "pinv m st'"
    unfolding pinv_def
  proof (intro conjI ballI impI)
    show "start m \<in> visited st'" using sv v' by simp
    have "start m \<notin> set news" using news sv by simp
    then show "parent_map st' (start m) = Some None" using ps pm' by simp
  next
    fix v assume "v \<in> visited st'"
    then have "v \<in> visited st \<or> edge m u v" using v' news by blast
    then show "reachable m (start m) v"
      using rv reachable_edge[OF ru] by blast
  next
    fix v assume v: "v \<in> visited st'" and vs: "v \<noteq> start m"
    show "\<exists>u \<in> visited st'. parent_map st' v = Some (Some u) \<and> edge m u v \<and> ?D v = Suc (?D u)"
    proof (cases "v \<in> set news")
      case True
      then have "edge m u v" using news by simp
      with True newd[OF True] uv v' pm' show ?thesis by auto
    next
      case False
      with v v' have "v \<in> visited st" by simp
      from par[OF this vs] False v' pm' show ?thesis by auto
    qed
  qed
  have restd: "?D u \<le> ?D x \<and> ?D x \<le> Suc (?D u)" if "x \<in> set rest" for x
    using ge[of x] span[of x] that hd qu by simp
  have alld: "?D u \<le> ?D x \<and> ?D x \<le> Suc (?D u)" if "x \<in> set (rest @ news)" for x
  proof -
    from that have "x \<in> set rest \<or> x \<in> set news" by simp
    then show ?thesis using restd[of x] newd[of x] by (elim disjE) simp_all
  qed
  show "qinv m st'"
    unfolding qinv_def
  proof (intro conjI ballI impI allI)
    show "set (queue st') \<subseteq> visited st'" using q' v' qsub qu by auto
  next
    have "sorted (map ?D rest)" using srt qu by simp
    moreover have "sorted (map ?D news)"
      using newd by (rule sorted_map_const)
    moreover have "\<forall>x \<in> set rest. \<forall>y \<in> set news. ?D x \<le> ?D y"
    proof (intro ballI)
      fix x y assume "x \<in> set rest" "y \<in> set news"
      then show "?D x \<le> ?D y" using restd[of x] newd[of y] by simp
    qed
    ultimately show "sorted (map ?D (queue st'))"
      unfolding q' by (simp add: sorted_append)
  next
    fix x assume x: "x \<in> set (queue st')"
    then have ne': "queue st' \<noteq> []" by auto
    then have "hd (queue st') \<in> set (rest @ news)" unfolding q' by (intro hd_in_set)
    from alld[OF this] alld[of x] x q'
    show "?D x \<le> Suc (?D (hd (queue st')))" by simp
  next
    fix v w assume v: "v \<in> visited st' - set (queue st')" and e: "edge m v w"
    then have vv: "v \<in> visited st" and vr: "v \<notin> set rest" using v' q' by auto
    show "w \<in> visited st'"
    proof (cases "v = u")
      case True
      with e have "w \<in> visited st \<or> w \<in> set news" unfolding news by blast
      then show ?thesis unfolding v' by blast
    next
      case False
      with vr qu have "v \<notin> set (queue st)" by simp
      from cl[OF vv this e] v' show ?thesis by simp
    qed
  next
    fix x assume ne': "queue st' \<noteq> []"
      and x: "reachable m (start m) x \<and> ?D x < ?D (hd (queue st'))"
    have "hd (queue st') \<in> set (rest @ news)" using ne' unfolding q' by (intro hd_in_set)
    from alld[OF this] x have "?D x \<le> ?D u" by simp
    with x low v' show "x \<in> visited st'" by simp
  next
    assume e: "end_pos m \<in> visited st'"
    show "end_pos m \<in> set (queue st')"
    proof (cases "end_pos m \<in> set news")
      case True then show ?thesis using q' by simp
    next
      case False
      with e v' have "end_pos m \<in> visited st" by simp
      from en[OF this] ne qu q' show ?thesis by auto
    qed
  qed
qed


lemma pinv_queue_upd: "pinv m (st\<lparr>queue := q\<rparr>) = pinv m st"
  by (simp add: pinv_def)

lemma bfs_loop_correct:
  "wf_maze m \<Longrightarrow> pinv m st \<Longrightarrow> qinv m st \<Longrightarrow>
    \<exists>found st'. bfs_loop m st = Inr (found, st') \<and> pinv m st'
       \<and> (found \<longrightarrow> end_pos m \<in> visited st')
       \<and> (\<not> found \<longrightarrow> \<not> reachable m (start m) (end_pos m))"
proof (induction m st rule: bfs_loop.induct)
  case (1 m st)
  note wf = "1.prems"(1) and p = "1.prems"(2) and q = "1.prems"(3)
  show ?case
  proof (cases "queue st")
    case Nil
    have cl: "w \<in> visited st" if "v \<in> visited st" "edge m v w" for v w
      using qinvD(4)[OF q that(1) _ that(2)] Nil by simp
    have "\<not> reachable m (start m) (end_pos m)"
    proof
      assume "reachable m (start m) (end_pos m)"
      then obtain n where "reach m (start m) n (end_pos m)" unfolding reachable_def ..
      from closed_reach[OF pinvD(1)[OF p] cl this] have "end_pos m \<in> visited st" .
      from qinvD(6)[OF q this] Nil show False by simp
    qed
    then show ?thesis using Nil p by (subst bfs_loop.simps) auto
  next
    case (Cons u rest)
    show ?thesis
    proof (cases "u = end_pos m")
      case True
      have "end_pos m \<in> visited st" using qinvD(1)[OF q] Cons True by auto
      then show ?thesis using Cons True p
        by (subst bfs_loop.simps) (auto simp: pinv_queue_upd)
    next
      case False
      let ?mid = "st\<lparr>queue := rest\<rparr>"
      from visit_neighbors_wf[OF wf solve_directions_distinct, of u ?mid]
      obtain s' where
        r: "visit_neighbors m u solve_directions ?mid = Inr s'"
        and q0: "queue s' = queue ?mid @ fresh_neighbors m u solve_directions (visited ?mid)"
        and v0: "visited s' = visited ?mid \<union> set (fresh_neighbors m u solve_directions (visited ?mid))"
        and pm0: "parent_map s' = (\<lambda>v. if v \<in> set (fresh_neighbors m u solve_directions (visited ?mid))
                                 then Some (Some u) else parent_map ?mid v)"
        by blast
      have q': "queue s' = rest @ fresh_neighbors m u solve_directions (visited st)"
        using q0 by simp
      have v': "visited s' = visited st \<union> set (fresh_neighbors m u solve_directions (visited st))"
        using v0 by simp
      have pm': "parent_map s' = (\<lambda>v. if v \<in> set (fresh_neighbors m u solve_directions (visited st))
                                 then Some (Some u) else parent_map st v)"
        using pm0 by (simp cong: if_cong)
      have inv': "pinv m s'" "qinv m s'"
        using bfs_step[OF p q Cons q' v' pm' fresh_neighbors_set False] by blast+
      from "1.IH"[OF Cons False r wf inv'] obtain found st' where
        "bfs_loop m s' = Inr (found, st')" "pinv m st'"
        "found \<longrightarrow> end_pos m \<in> visited st'"
        "\<not> found \<longrightarrow> \<not> reachable m (start m) (end_pos m)"
        by blast
      then show ?thesis using Cons False r
        by (subst bfs_loop.simps) auto
    qed
  qed
qed

lemma bfs_initial:
  "pinv m \<lparr> queue = [start m], parent_map = [start m \<mapsto> None], visited = {start m} \<rparr>"
  "qinv m \<lparr> queue = [start m], parent_map = [start m \<mapsto> None], visited = {start m} \<rparr>"
  by (simp_all add: pinv_def qinv_def reachable_start dist_start)

text \<open>Following the parents from a seen cell ends at \<open>start\<close> after as many steps
  as the cell is away.\<close>

lemma reconstruct_correct:
  assumes p: "pinv m st"
  shows "v \<in> visited st \<Longrightarrow> dist m (start m) v = n \<Longrightarrow>
    \<exists>p. reconstruct (parent_map st) (Some v) acc = Some (Inr (acc @ p))
       \<and> length p = Suc n \<and> hd p = v \<and> last p = start m
       \<and> successively (\<lambda>a b. edge m b a) p"
proof (induction n arbitrary: v acc)
  case 0
  then have "v = start m" using dist_0_iff[OF pinvD(3)[OF p]] by simp
  then have "reconstruct (parent_map st) (Some v) acc = Some (Inr (acc @ [v]))"
    using pinvD(2)[OF p]
    by (subst reconstruct.simps, simp, subst reconstruct.simps, simp)
  then show ?case using \<open>v = start m\<close> by simp
next
  case (Suc n)
  then have vs: "v \<noteq> start m" using dist_start[of m "start m"] by auto
  from pinvD(4)[OF p Suc.prems(1) vs] obtain u where
    u: "u \<in> visited st" and pu: "parent_map st v = Some (Some u)" and e: "edge m u v"
    and d: "dist m (start m) v = Suc (dist m (start m) u)"
    by blast
  have du: "dist m (start m) u = n" using d Suc.prems(2) by simp
  from Suc.IH[OF u du, of "acc @ [v]"] obtain q where
    r: "reconstruct (parent_map st) (Some u) (acc @ [v]) = Some (Inr ((acc @ [v]) @ q))"
    and lq: "length q = Suc n" and hq: "hd q = u" and la: "last q = start m"
    and sq: "successively (\<lambda>a b. edge m b a) q"
    by blast
  have qne: "q \<noteq> []" using lq by auto
  have "reconstruct (parent_map st) (Some v) acc = Some (Inr (acc @ (v # q)))"
    using pu r by (subst reconstruct.simps) simp
  moreover have "successively (\<lambda>a b. edge m b a) (v # q)"
    using sq e hq qne by (simp add: successively_Cons)
  ultimately show ?case using lq la qne by (intro exI[of _ "v # q"]) simp
qed

text \<open>What \<^verbatim>\<open>solve\<close> returns on a well-formed maze: nothing is raised, the loops
  end, and a returned path is a walk from \<open>start\<close> to \<open>end\<close> of least length.\<close>

lemma solve_correct:
  assumes wf: "wf_maze m"
  shows "(\<not> reachable m (start m) (end_pos m) \<and> solve m = Some (Inr None))
       \<or> (\<exists>p. solve m = Some (Inr (Some p)) \<and> p \<noteq> [] \<and> hd p = start m \<and> last p = end_pos m
              \<and> successively (edge m) p
              \<and> length p = Suc (dist m (start m) (end_pos m)))"
proof -
  let ?s0 = "\<lparr> queue = [start m], parent_map = [start m \<mapsto> None], visited = {start m} \<rparr>"
  from bfs_loop_correct[OF wf bfs_initial] obtain found st' where
    b: "bfs_loop m ?s0 = Inr (found, st')" and p: "pinv m st'"
    and f: "found \<longrightarrow> end_pos m \<in> visited st'"
    and nf: "\<not> found \<longrightarrow> \<not> reachable m (start m) (end_pos m)"
    by blast
  show ?thesis
  proof (cases found)
    case False
    with nf b show ?thesis by (simp add: solve_def)
  next
    case True
    with f have ev: "end_pos m \<in> visited st'" by simp
    from reconstruct_correct[OF p ev refl, of "[]"] obtain q where
      r: "reconstruct (parent_map st') (Some (end_pos m)) [] = Some (Inr q)"
      and lq: "length q = Suc (dist m (start m) (end_pos m))"
      and hq: "hd q = end_pos m" and la: "last q = start m"
      and sq: "successively (\<lambda>a b. edge m b a) q"
      by auto
    have qne: "q \<noteq> []" using lq by auto
    have "solve m = Some (Inr (Some (rev q)))" using b True r by (simp add: solve_def)
    moreover have "successively (edge m) (rev q)" using sq by simp
    ultimately show ?thesis using qne hq la lq by (simp add: hd_rev last_rev)
  qed
qed

section \<open>Shortest paths and solving a generated maze\<close>

text \<open>\<open>two_routes\<close> is a hand-made grid with a route of three cells from \<open>start\<close> to
  \<open>end\<close> and a second one, \<open>long_route\<close>, of eleven.\<close>

lemma open_path_walk:
  assumes "open_path m q"
  shows "successively (edge m) q"
proof -
  from assms have o: "\<forall>x \<in> set q. is_open m x" and s: "successively adjacent q"
    by (simp_all add: open_path_def)
  from s o show ?thesis
  proof (induction q)
    case Nil then show ?case by simp
  next
    case (Cons a q)
    show ?case
    proof (cases q)
      case Nil then show ?thesis by simp
    next
      case (Cons b r)
      with Cons.prems have "adjacent a b" "is_open m b" "successively adjacent q"
        "\<forall>x \<in> set q. is_open m x"
        by simp_all
      with Cons.IH Cons show ?thesis by (simp add: edge_def)
    qed
  qed
qed

lemma open_path_dist:
  assumes "open_path m q" and "hd q = s"
  shows "reach m s (length q - 1) (last q)"
proof -
  have ne: "q \<noteq> []" using assms(1) by (simp add: open_path_def)
  from walk_reach[OF ne open_path_walk[OF assms(1)], of s 0] assms(2)
  show ?thesis by (simp add: reach_0_iff)
qed

definition two_routes :: maze where
  "two_routes = \<lparr> width = 7, height = 5,
                   grid = [''#######'', ''#S    #'', ''# ### #'', ''#E    #'', ''#######''],
                   start = (1, 1), end_pos = (3, 1) \<rparr>"

definition long_route :: "coord list" where
  "long_route = [(1, 1), (1, 2), (1, 3), (1, 4), (1, 5), (2, 5), (3, 5), (3, 4), (3, 3), (3, 2), (3, 1)]"

lemma walk_tail_open:
  "successively (edge m) p \<Longrightarrow> x \<in> set (tl p) \<Longrightarrow> is_open m x"
proof (induction p)
  case Nil
  then show ?case by simp
next
  case (Cons a p)
  show ?case
  proof (cases p)
    case Nil
    with Cons.prems(2) show ?thesis by simp
  next
    case c: (Cons b r)
    have e: "edge m a b" and s: "successively (edge m) p"
      using Cons.prems(1) unfolding c by simp_all
    from Cons.prems(2) have "x = b \<or> x \<in> set (tl p)" unfolding c by simp
    then show ?thesis
    proof
      assume "x = b"
      with e show ?thesis by (simp only: edge_def)
    next
      assume "x \<in> set (tl p)"
      with s show ?thesis by (rule Cons.IH)
    qed
  qed
qed

text \<open>
  Claim C2. On every grid state (a maze whose grid has the shape the constructor
  gave it), whenever \<^verbatim>\<open>solve\<close> returns a path, that path leads from \<open>start\<close> to
  \<open>end\<close> by 4-directional moves into non-wall cells, and no sequence of
  4-directionally adjacent non-wall cells from \<open>start\<close> to \<open>end\<close> has fewer cells.
\<close>

theorem solve_shortest:
  assumes "wf_maze m" and "solve m = Some (Inr (Some p))"
  shows "p \<noteq> [] \<and> hd p = start m \<and> last p = end_pos m \<and> successively adjacent p
       \<and> (\<forall>x \<in> set (tl p). is_open m x)
       \<and> (is_open m (start m) \<longrightarrow> open_path m p)
       \<and> (\<forall>q. open_path m q \<and> hd q = start m \<and> last q = end_pos m
              \<longrightarrow> open_path m p \<and> length p \<le> length q)"
proof -
  from solve_correct[OF assms(1)] assms(2)
  have ne: "p \<noteq> []" and h: "hd p = start m" and l: "last p = end_pos m"
    and w: "successively (edge m) p"
    and len: "length p = Suc (dist m (start m) (end_pos m))"
    by auto
  have adj: "successively adjacent p"
    using w by (rule successively_mono) (simp add: edge_def)
  have tl: "\<forall>x \<in> set (tl p). is_open m x" using walk_tail_open[OF w] by blast
  have op: "open_path m p" if "is_open m (start m)"
  proof -
    have "set p = insert (hd p) (set (tl p))" using ne by (cases p) simp_all
    with tl that h have "\<forall>x \<in> set p. is_open m x" by simp
    with ne adj show ?thesis by (simp add: open_path_def)
  qed
  have short: "open_path m p \<and> length p \<le> length q"
    if q: "open_path m q \<and> hd q = start m \<and> last q = end_pos m" for q
  proof -
    have qne: "q \<noteq> []" and qo: "\<forall>x \<in> set q. is_open m x" using q by (simp_all add: open_path_def)
    then have "is_open m (hd q)" by simp
    then have so: "is_open m (start m)" using q by simp
    have "reach m (start m) (length q - 1) (end_pos m)"
      using open_path_dist[of m q "start m"] q by simp
    then have "dist m (start m) (end_pos m) \<le> length q - 1" by (rule dist_le)
    with len qne have "length p \<le> length q" by (cases q) simp_all
    with op[OF so] show ?thesis by simp
  qed
  show ?thesis using ne h l adj tl op short by blast
qed

theorem solve_shortest_witness:
  "wf_maze two_routes
   \<and> solve two_routes = Some (Inr (Some [(1, 1), (2, 1), (3, 1)]))
   \<and> open_path two_routes long_route
   \<and> hd long_route = start two_routes \<and> last long_route = end_pos two_routes
   \<and> open_path two_routes [(1, 1), (2, 1), (3, 1)]
   \<and> length [(1, 1), (2, 1), (3, 1) :: coord] \<le> length long_route"
proof -
  have wf: "wf_maze two_routes" by code_simp
  have s: "solve two_routes = Some (Inr (Some [(1, 1), (2, 1), (3, 1)]))" by code_simp
  have o: "open_path two_routes long_route" by code_simp
  have h: "hd long_route = start two_routes" "last long_route = end_pos two_routes"
    by (simp_all add: long_route_def two_routes_def)
  from solve_shortest[OF wf s] o h
  have "open_path two_routes [(1, 1), (2, 1), (3, 1)]
        \<and> length [(1, 1), (2, 1), (3, 1) :: coord] \<le> length long_route"
    by blast
  with wf s o h show ?thesis by blast
qed

text \<open>
  Claim C3. For odd \<open>width, height \<ge> 3\<close>, \<^verbatim>\<open>solve\<close> after \<^verbatim>\<open>generate\<close> returns a
  path (not \<^verbatim>\<open>None\<close>, no exception, both loops end) that starts at \<open>start\<close>, ends
  at \<open>end\<close>, and whose consecutive cells are at Manhattan distance 1.
\<close>

theorem generate_solve_path:
  assumes "odd w" and "odd h" and "3 \<le> w" and "3 \<le> h"
  shows "\<exists>m' p. generate rnd (Maze_init w h) = Inr m' \<and> solve m' = Some (Inr (Some p))
            \<and> p \<noteq> [] \<and> hd p = start m' \<and> last p = end_pos m' \<and> successively adjacent p"
proof -
  from assms have "2 \<le> w" "2 \<le> h" by simp_all
  from generate_summary[OF this, of rnd] obtain m' where
    g: "generate rnd (Maze_init w h) = Inr m'" and wf: "wf_maze m'"
    and up: "unique_paths adjacent (opens m')"
    and s: "start m' = (1, 1)" and o: "is_open m' (1, 1)" "is_open m' (end_pos m')"
    by blast
  have "start m' \<in> opens m'" "end_pos m' \<in> opens m'" using s o by (simp_all add: opens_def)
  with up obtain q where "spath adjacent (opens m') (start m') (end_pos m') q"
    unfolding unique_paths_def by blast
  then have q: "open_path m' q" "hd q = start m'" "last q = end_pos m'"
    unfolding simple_path_spath[symmetric] simple_path_def by simp_all
  have "reachable m' (start m') (end_pos m')"
    using open_path_dist[OF q(1,2)] q(3) unfolding reachable_def by auto
  with solve_correct[OF wf] obtain p where
    p: "solve m' = Some (Inr (Some p))" "p \<noteq> []" "hd p = start m'" "last p = end_pos m'"
      "successively (edge m') p"
    by blast
  have "successively adjacent p"
    using p(5) by (rule successively_mono) (simp add: edge_def)
  with g p show ?thesis by blast
qed

theorem generate_solve_path_witness:
  "odd (5::int) \<and> (3::int) \<le> 5
   \<and> generate first_choice (Maze_init 5 5) = Inr generated_5x5
   \<and> solve generated_5x5 = Some (Inr (Some [(1, 1), (1, 2), (1, 3), (2, 3), (3, 3)]))
   \<and> successively adjacent [(1, 1), (1, 2), (1, 3), (2, 3), (3, 3)]"
proof -
  have s: "solve generated_5x5 = Some (Inr (Some [(1, 1), (1, 2), (1, 3), (2, 3), (3, 3)]))"
    by code_simp
  from generate_solve_path[of 5 5 first_choice] obtain m' p where
    "generate first_choice (Maze_init 5 5) = Inr m'" "solve m' = Some (Inr (Some p))"
    "successively adjacent p"
    by auto
  then have "successively adjacent [(1, 1), (1, 2), (1, 3), (2, 3), (3, 3)]"
    by (simp add: generate_5x5 s)
  then show ?thesis by (simp add: generate_5x5 s)
qed

section \<open>Display: the grid is kept, and the text that is printed\<close>

lemma copy_rows_spec:
  "\<forall>a \<in> set refs. a < length H \<Longrightarrow>
     copy_rows H refs = (H @ map (\<lambda>a. H ! a) refs, [length H ..< length H + length refs])"
proof (induction refs arbitrary: H)
  case Nil then show ?case by simp
next
  case (Cons a as)
  have "\<forall>b \<in> set as. b < length (H @ [H ! a])" using Cons.prems by auto
  from Cons.IH[OF this]
  have f1: "copy_rows (H @ [H ! a]) as
        = ((H @ [H ! a]) @ map (\<lambda>b. (H @ [H ! a]) ! b) as,
           [length (H @ [H ! a]) ..< length (H @ [H ! a]) + length as])" .
  have f2: "map (\<lambda>b. (H @ [H ! a]) ! b) as = map (\<lambda>b. H ! b) as"
    using Cons.prems by (intro map_cong) (auto simp: nth_append)
  have f3: "[length H ..< length H + length (a # as)]
      = length H # [length (H @ [H ! a]) ..< length (H @ [H ! a]) + length as]"
    by (subst upt_rec) simp
  show ?case
    unfolding copy_rows.simps f1 f2 f3 by simp
qed

lemma py_get_mem: "py_get xs i = Inr a \<Longrightarrow> a \<in> set xs"
proof -
  assume "py_get xs i = Inr a"
  then obtain k where "py_index xs i = Some k" "a = xs ! k"
    unfolding py_get_def by (cases "py_index xs i") auto
  then show ?thesis using py_index_lt[of xs i k] by simp
qed

declare overlay.simps [simp del]

lemma overlay_Nil: "overlay st en refs [] H = (H, None)"
  by (subst overlay.simps) (rule refl)

lemma overlay_skip:
  assumes "q = st \<or> q = en"
  shows "overlay st en refs (q # p) H = overlay st en refs p H"
proof -
  have "\<not> (q \<noteq> st \<and> q \<noteq> en)" using assms by blast
  then show ?thesis by (subst overlay.simps) (rule if_not_P)
qed

lemma overlay_mark:
  "q \<noteq> st \<Longrightarrow> q \<noteq> en \<Longrightarrow> overlay st en refs (q # p) H =
     (case py_get refs (fst q) of
        Inl e \<Rightarrow> (H, Some e)
      | Inr a \<Rightarrow>
          (case py_set (H ! a) (snd q) CHR ''o'' of
             Inl e \<Rightarrow> (H, Some e)
           | Inr row' \<Rightarrow> overlay st en refs p (H[a := row'])))"
  by (subst overlay.simps) (simp only: if_True simp_thms)

text \<open>One iteration of the overlay loop: skip, raise, or write into one row.\<close>

lemma overlay_Cons_cases:
  obtains (skipped) "q = st \<or> q = en" "overlay st en refs (q # p) H = overlay st en refs p H"
  | (raised) e where "q \<noteq> st" "q \<noteq> en" "overlay st en refs (q # p) H = (H, Some e)"
  | (written) a row' where "q \<noteq> st" "q \<noteq> en" "py_get refs (fst q) = Inr a"
      "py_set (H ! a) (snd q) CHR ''o'' = Inr row'"
      "overlay st en refs (q # p) H = overlay st en refs p (H[a := row'])"
proof (cases "q = st \<or> q = en")
  case True
  then show ?thesis using overlay_skip[OF True] by (rule skipped)
next
  case False
  then have ne: "q \<noteq> st" "q \<noteq> en" by blast+
  note mark = overlay_mark[OF ne, of refs p H]
  show ?thesis
  proof (cases "py_get refs (fst q)")
    case (Inl e)
    have "overlay st en refs (q # p) H = (H, Some e)"
      by (simp only: mark Inl sum.case)
    with ne show ?thesis by (rule raised)
  next
    case g: (Inr a)
    show ?thesis
    proof (cases "py_set (H ! a) (snd q) CHR ''o''")
      case (Inl e)
      have "overlay st en refs (q # p) H = (H, Some e)"
        by (simp only: mark g Inl sum.case)
      with ne show ?thesis by (rule raised)
    next
      case (Inr row')
      have "overlay st en refs (q # p) H = overlay st en refs p (H[a := row'])"
        by (simp only: mark g Inr sum.case)
      with ne g Inr show ?thesis by (rule written)
    qed
  qed
qed

text \<open>The overlay writes into the copies only.\<close>

lemma overlay_frame:
  "\<forall>a \<in> set refs. n \<le> a \<Longrightarrow> take n (fst (overlay st en refs p H)) = take n H"
proof (induction p arbitrary: H)
  case Nil
  show ?case by (simp only: overlay_Nil fst_conv)
next
  case (Cons q p)
  show ?case
  proof (cases rule: overlay_Cons_cases[of q st en refs p H])
    case skipped
    show ?thesis unfolding skipped(2) using Cons.prems by (rule Cons.IH)
  next
    case (raised e)
    show ?thesis by (simp only: raised(3) fst_conv)
  next
    case (written a row')
    have "a \<in> set refs" using written(3) by (rule py_get_mem)
    with Cons.prems have "n \<le> a" by blast
    then have "take n (H[a := row']) = take n H" by simp
    moreover have "take n (fst (overlay st en refs p (H[a := row']))) = take n (H[a := row'])"
      using Cons.prems by (rule Cons.IH)
    ultimately show ?thesis unfolding written(5) by (rule trans[rotated])
  qed
qed

lemma print_rows_spec:
  "\<forall>r \<in> set rs. r < length refs \<Longrightarrow>
     print_rows H refs rs = (map (\<lambda>r. H ! (refs ! r)) rs, None)"
proof (induction rs)
  case Nil then show ?case by simp
next
  case (Cons r rs)
  then have "py_get refs (int r) = Inr (refs ! r)"
    by (simp add: py_get_def py_index_def)
  with Cons show ?case by simp
qed


lemma overlay_spec:
  assumes "distinct refs"
    and "\<forall>a \<in> set refs. a < length H \<and> length (H ! a) = w"
    and "\<forall>q \<in> set p. q \<noteq> st \<and> q \<noteq> en
           \<longrightarrow> 0 \<le> fst q \<and> fst q < int (length refs) \<and> 0 \<le> snd q \<and> snd q < int w"
  shows "\<exists>H'. overlay st en refs p H = (H', None) \<and> length H' = length H
           \<and> (\<forall>a \<in> set refs. length (H' ! a) = w)
           \<and> (\<forall>i < length refs. \<forall>j < w. H' ! (refs ! i) ! j =
                (if (int i, int j) \<in> set p \<and> (int i, int j) \<noteq> st \<and> (int i, int j) \<noteq> en
                 then CHR ''o'' else H ! (refs ! i) ! j))"
  using assms(2,3)
proof (induction p arbitrary: H)
  case Nil
  show ?case using Nil.prems(1) by (simp add: overlay_Nil)
next
  case (Cons q p)
  have rest: "\<forall>x \<in> set p. x \<noteq> st \<and> x \<noteq> en
           \<longrightarrow> 0 \<le> fst x \<and> fst x < int (length refs) \<and> 0 \<le> snd x \<and> snd x < int w"
    using Cons.prems(2) by simp
  show ?case
  proof (cases "q = st \<or> q = en")
    case True
    from Cons.IH[OF Cons.prems(1) rest] obtain H' where
      H': "overlay st en refs p H = (H', None)" "length H' = length H"
          "\<forall>a \<in> set refs. length (H' ! a) = w"
          "\<forall>i < length refs. \<forall>j < w. H' ! (refs ! i) ! j =
                (if (int i, int j) \<in> set p \<and> (int i, int j) \<noteq> st \<and> (int i, int j) \<noteq> en
                 then CHR ''o'' else H ! (refs ! i) ! j)"
      by blast
    have same: "(x \<in> set (q # p) \<and> x \<noteq> st \<and> x \<noteq> en) = (x \<in> set p \<and> x \<noteq> st \<and> x \<noteq> en)" for x
      using True by auto
    have "overlay st en refs (q # p) H = (H', None)"
      using overlay_skip[OF True, of refs p H] H'(1) by simp
    then show ?thesis using H'(2,3,4) unfolding same by blast
  next
    case False
    then have ne: "q \<noteq> st" "q \<noteq> en" by blast+
    have qb: "0 \<le> fst q" "fst q < int (length refs)" "0 \<le> snd q" "snd q < int w"
      using Cons.prems(2) ne by simp_all
    define i0 where "i0 = nat (fst q)"
    define j0 where "j0 = nat (snd q)"
    define a where "a = refs ! i0"
    define H2 where "H2 = H[a := (H ! a)[j0 := CHR ''o'']]"
    have i0: "i0 < length refs" and j0: "j0 < w" using qb by (simp_all add: i0_def j0_def)
    have q_eq: "q = (int i0, int j0)" using qb by (simp add: i0_def j0_def prod_eq_iff)
    have a_mem: "a \<in> set refs" using i0 by (simp add: a_def)
    then have a_lt: "a < length H" and a_len: "length (H ! a) = w" using Cons.prems(1) by blast+
    have g: "py_get refs (fst q) = Inr a"
      using qb by (simp add: py_get_def py_index_nonneg a_def i0_def)
    have s: "py_set (H ! a) (snd q) CHR ''o'' = Inr ((H ! a)[j0 := CHR ''o''])"
      using qb a_len by (simp add: py_set_def py_index_nonneg j0_def)
    have step: "overlay st en refs (q # p) H = overlay st en refs p H2"
      by (simp only: overlay_mark[OF ne] g s sum.case H2_def)
    have pre2: "\<forall>b \<in> set refs. b < length H2 \<and> length (H2 ! b) = w"
    proof
      fix b assume "b \<in> set refs"
      then have "b < length H" "length (H ! b) = w" using Cons.prems(1) by blast+
      then show "b < length H2 \<and> length (H2 ! b) = w"
        using a_len a_lt by (simp add: H2_def nth_list_update)
    qed
    from Cons.IH[OF pre2 rest] obtain H' where
      H': "overlay st en refs p H2 = (H', None)" "length H' = length H2"
          "\<forall>a \<in> set refs. length (H' ! a) = w"
          "\<forall>i < length refs. \<forall>j < w. H' ! (refs ! i) ! j =
                (if (int i, int j) \<in> set p \<and> (int i, int j) \<noteq> st \<and> (int i, int j) \<noteq> en
                 then CHR ''o'' else H2 ! (refs ! i) ! j)"
      by blast
    have cellH2: "H2 ! (refs ! i) ! j = (if i = i0 \<and> j = j0 then CHR ''o'' else H ! (refs ! i) ! j)"
      if "i < length refs" "j < w" for i j
    proof -
      have idx: "(refs ! i = a) = (i = i0)"
        unfolding a_def using assms(1) that(1) i0 by (simp add: nth_eq_iff_index_eq)
      show ?thesis
      proof (cases "i = i0")
        case True
        then have "H2 ! (refs ! i) = (H ! a)[j0 := CHR ''o'']"
          using a_lt by (simp add: H2_def a_def)
        then show ?thesis using True that(2) a_len by (simp add: nth_list_update a_def)
      next
        case False
        then have "refs ! i \<noteq> a" using idx by simp
        then have "H2 ! (refs ! i) = H ! (refs ! i)" by (simp add: H2_def)
        then show ?thesis using False by simp
      qed
    qed
    have final: "H' ! (refs ! i) ! j =
                (if (int i, int j) \<in> set (q # p) \<and> (int i, int j) \<noteq> st \<and> (int i, int j) \<noteq> en
                 then CHR ''o'' else H ! (refs ! i) ! j)"
      if "i < length refs" "j < w" for i j
    proof -
      have e1: "H' ! (refs ! i) ! j =
                (if (int i, int j) \<in> set p \<and> (int i, int j) \<noteq> st \<and> (int i, int j) \<noteq> en
                 then CHR ''o'' else H2 ! (refs ! i) ! j)"
        using H'(4) that by blast
      have e2: "((int i, int j) = q) = (i = i0 \<and> j = j0)"
        unfolding q_eq by simp
      show ?thesis
      proof (cases "i = i0 \<and> j = j0")
        case True
        then have "(int i, int j) = q" using e2 by simp
        then have "(int i, int j) \<in> set (q # p) \<and> (int i, int j) \<noteq> st \<and> (int i, int j) \<noteq> en"
          using ne by simp
        moreover have "H' ! (refs ! i) ! j = CHR ''o''"
          unfolding e1 cellH2[OF that] using True by simp
        ultimately show ?thesis by simp
      next
        case False
        then have "(int i, int j) \<noteq> q" using e2 by simp
        then have mem: "((int i, int j) \<in> set (q # p)) = ((int i, int j) \<in> set p)" by auto
        have "H2 ! (refs ! i) ! j = H ! (refs ! i) ! j"
          unfolding cellH2[OF that] using False by (simp only: if_False)
        then show ?thesis unfolding e1 mem by (simp only:)
      qed
    qed
    have "length H' = length H" using H'(2) by (simp add: H2_def)
    then show ?thesis using step H'(1,3) final by simp
  qed
qed


text \<open>The coordinates that \<^verbatim>\<open>display\<close> marks: those of the path other than start
  and end. \<open>rendered\<close> is the text the specification describes: \<open>o\<close> at the
  marked coordinates, the glyph of the grid everywhere else.\<close>

definition path_list :: "coord list option \<Rightarrow> coord list" where
  "path_list path = (case path of None \<Rightarrow> [] | Some p \<Rightarrow> p)"

definition solution_marks :: "maze \<Rightarrow> coord list option \<Rightarrow> coord list" where
  "solution_marks m path = filter (\<lambda>q. q \<noteq> start m \<and> q \<noteq> end_pos m) (path_list path)"

definition rendered :: "maze \<Rightarrow> coord list option \<Rightarrow> string list" where
  "rendered m path =
     map (\<lambda>r. map (\<lambda>c. if (int r, int c) \<in> set (solution_marks m path) then CHR ''o''
                         else cell m (int r, int c))
                [0..<nat (width m)])
         [0..<nat (height m)]"

lemma display_unfold:
  "display m path =
     (case overlay (start m) (end_pos m) [length (grid m) ..< length (grid m) + length (grid m)]
             (path_list path) (grid m @ grid m) of
        (H2, Some e) \<Rightarrow> (H2, [], Some e)
      | (H2, None) \<Rightarrow>
          (case print_rows H2 [length (grid m) ..< length (grid m) + length (grid m)]
                  [0..<nat (height m)] of
             (out, e) \<Rightarrow> (H2, out, e)))"
proof -
  have c: "copy_rows (grid m) [0..<length (grid m)]
             = (grid m @ grid m, [length (grid m) ..< length (grid m) + length (grid m)])"
    using copy_rows_spec[of "[0..<length (grid m)]" "grid m"] by (simp add: map_nth)
  have o: "(case path of None \<Rightarrow> (H1, None) | Some [] \<Rightarrow> (H1, None)
              | Some p \<Rightarrow> overlay st en refs p H1)
           = overlay st en refs (path_list path) H1" for H1 st en refs
    by (cases path) (simp_all add: path_list_def overlay_Nil split: list.splits)
  show ?thesis
    unfolding display_def display_store_def c Let_def prod.case o
    by (simp split: prod.splits option.splits)
qed

lemma display_frame:
  "take (length (grid m)) (fst (display m path)) = grid m"
proof -
  define refs where "refs = [length (grid m) ..< length (grid m) + length (grid m)]"
  define ov where "ov = overlay (start m) (end_pos m) refs (path_list path) (grid m @ grid m)"
  have "\<forall>a \<in> set refs. length (grid m) \<le> a" by (simp add: refs_def)
  then have "take (length (grid m)) (fst ov) = take (length (grid m)) (grid m @ grid m)"
    unfolding ov_def by (rule overlay_frame)
  then have t: "take (length (grid m)) (fst ov) = grid m" by simp
  have "fst (display m path) = fst ov"
    unfolding display_unfold refs_def[symmetric] ov_def[symmetric]
    by (simp split: prod.splits option.splits)
  then show ?thesis using t by simp
qed

lemma display_text:
  assumes wf: "wf_maze m"
    and valid: "\<forall>q \<in> set (solution_marks m path). is_valid m (fst q) (snd q)"
  shows "snd (display m path) = (rendered m path, None)"
proof -
  define n where "n = length (grid m)"
  define w where "w = nat (width m)"
  define refs where "refs = [n ..< n + n]"
  define p where "p = path_list path"
  have n: "n = nat (height m)" using wf by (simp add: wf_maze_def n_def)
  have rows: "length (grid m ! i) = w" if "i < n" for i
    using wf that by (simp add: wf_maze_def n_def w_def)
  have refs_len: "length refs = n" by (simp add: refs_def)
  have refs_nth: "refs ! i = n + i" if "i < n" for i using that by (simp add: refs_def)
  have d: "distinct refs" by (simp add: refs_def)
  have pre: "\<forall>a \<in> set refs. a < length (grid m @ grid m) \<and> length ((grid m @ grid m) ! a) = w"
  proof
    fix a assume "a \<in> set refs"
    then have a: "n \<le> a" "a < n + n" by (simp_all add: refs_def)
    then have "(grid m @ grid m) ! a = grid m ! (a - n)" by (simp add: nth_append n_def)
    moreover have "a - n < n" using a by simp
    ultimately show "a < length (grid m @ grid m) \<and> length ((grid m @ grid m) ! a) = w"
      using a rows[of "a - n"] by (simp add: n_def)
  qed
  have pv: "\<forall>q \<in> set p. q \<noteq> start m \<and> q \<noteq> end_pos m
           \<longrightarrow> 0 \<le> fst q \<and> fst q < int (length refs) \<and> 0 \<le> snd q \<and> snd q < int w"
  proof (intro ballI impI)
    fix q assume "q \<in> set p" "q \<noteq> start m \<and> q \<noteq> end_pos m"
    then have "q \<in> set (solution_marks m path)" by (simp add: solution_marks_def p_def)
    with valid have "is_valid m (fst q) (snd q)" by blast
    then show "0 \<le> fst q \<and> fst q < int (length refs) \<and> 0 \<le> snd q \<and> snd q < int w"
      by (simp add: is_valid_def refs_len n w_def)
  qed
  from overlay_spec[OF d pre pv] obtain H' where
    H': "overlay (start m) (end_pos m) refs p (grid m @ grid m) = (H', None)"
        "\<forall>a \<in> set refs. length (H' ! a) = w"
        "\<forall>i < length refs. \<forall>j < w. H' ! (refs ! i) ! j =
           (if (int i, int j) \<in> set p \<and> (int i, int j) \<noteq> start m \<and> (int i, int j) \<noteq> end_pos m
            then CHR ''o'' else (grid m @ grid m) ! (refs ! i) ! j)"
    by blast
  have pr: "print_rows H' refs [0..<nat (height m)]
              = (map (\<lambda>r. H' ! (refs ! r)) [0..<nat (height m)], None)"
    by (rule print_rows_spec) (simp add: refs_len n)
  have row: "H' ! (refs ! r) =
      map (\<lambda>c. if (int r, int c) \<in> set (solution_marks m path) then CHR ''o''
                 else cell m (int r, int c)) [0..<nat (width m)]"
    if "r < n" for r
  proof (rule nth_equalityI)
    have "refs ! r \<in> set refs" using that refs_len by simp
    then have "length (H' ! (refs ! r)) = w" using H'(2) by blast
    then show "length (H' ! (refs ! r)) =
        length (map (\<lambda>c. if (int r, int c) \<in> set (solution_marks m path) then CHR ''o''
                 else cell m (int r, int c)) [0..<nat (width m)])"
      by (simp add: w_def)
    fix j assume "j < length (H' ! (refs ! r))"
    then have j: "j < w" using \<open>length (H' ! (refs ! r)) = w\<close> by simp
    have e: "H' ! (refs ! r) ! j =
           (if (int r, int j) \<in> set p \<and> (int r, int j) \<noteq> start m \<and> (int r, int j) \<noteq> end_pos m
            then CHR ''o'' else (grid m @ grid m) ! (refs ! r) ! j)"
      using H'(3) that j refs_len by simp
    have g: "(grid m @ grid m) ! (refs ! r) ! j = cell m (int r, int j)"
      using that by (simp add: refs_nth nth_append n_def cell_def)
    have mk: "((int r, int j) \<in> set p \<and> (int r, int j) \<noteq> start m \<and> (int r, int j) \<noteq> end_pos m)
          = ((int r, int j) \<in> set (solution_marks m path))"
      by (auto simp: solution_marks_def p_def)
    show "H' ! (refs ! r) ! j =
        map (\<lambda>c. if (int r, int c) \<in> set (solution_marks m path) then CHR ''o''
                 else cell m (int r, int c)) [0..<nat (width m)] ! j"
      unfolding e g mk using j by (simp add: w_def)
  qed
  have out: "map (\<lambda>r. H' ! (refs ! r)) [0..<nat (height m)] = rendered m path"
    unfolding rendered_def by (rule map_cong[OF refl]) (simp add: row n)
  have "display m path = (H', rendered m path, None)"
    unfolding display_unfold n_def[symmetric] refs_def[symmetric] p_def[symmetric] H'(1)
    by (simp add: pr out)
  then show ?thesis by simp
qed


text \<open>
  Claim C8. For every maze and every path argument, \<^verbatim>\<open>display\<close> leaves the rows
  of the maze's grid as they were, also when it raises: the writes go to the
  copies. If the grid has the shape the constructor gives it and every path
  coordinate other than start and end lies inside the grid, \<^verbatim>\<open>display\<close>
  raises nothing and prints \<open>height\<close> lines of \<open>width\<close> glyphs, with \<open>o\<close> at
  exactly the path coordinates other than start and end and the glyph of the
  grid at every other cell.
\<close>

theorem display_frame_and_text:
  "take (length (grid m)) (fst (display m path)) = grid m
   \<and> (wf_maze m \<and> (\<forall>q \<in> set (solution_marks m path). is_valid m (fst q) (snd q))
        \<longrightarrow> snd (display m path) = (rendered m path, None))"
  using display_frame[of m path] display_text[of m path] by blast

theorem display_frame_and_text_witness:
  "wf_maze generated_5x5
   \<and> solution_marks generated_5x5 (Some [(1, 1), (1, 2), (1, 3), (2, 3), (3, 3)])
       = [(1, 2), (1, 3), (2, 3)]
   \<and> list_all (\<lambda>q. is_valid generated_5x5 (fst q) (snd q)) [(1, 2), (1, 3), (2, 3)]
   \<and> take 5 (fst (display generated_5x5 (Some [(1, 1), (1, 2), (1, 3), (2, 3), (3, 3)])))
       = [''#####'', ''#S  #'', ''### #'', ''#  E#'', ''#####'']
   \<and> snd (display generated_5x5 (Some [(1, 1), (1, 2), (1, 3), (2, 3), (3, 3)]))
       = ([''#####'', ''#Soo#'', ''###o#'', ''#  E#'', ''#####''], None)"
proof -
  let ?p = "Some [(1, 1), (1, 2), (1, 3), (2, 3), (3, 3) :: coord]"
  have wf: "wf_maze generated_5x5" by code_simp
  have sm: "solution_marks generated_5x5 ?p = [(1, 2), (1, 3), (2, 3)]" by code_simp
  have la: "list_all (\<lambda>q. is_valid generated_5x5 (fst q) (snd q)) [(1, 2), (1, 3), (2, 3)]"
    by code_simp
  then have v: "\<forall>q \<in> set (solution_marks generated_5x5 ?p). is_valid generated_5x5 (fst q) (snd q)"
    unfolding sm list_all_iff .
  have g: "grid generated_5x5 = [''#####'', ''#S  #'', ''### #'', ''#  E#'', ''#####'']"
    by (simp add: generated_5x5_def)
  have r: "rendered generated_5x5 ?p = [''#####'', ''#Soo#'', ''###o#'', ''#  E#'', ''#####'']"
    by code_simp
  from display_frame_and_text[of generated_5x5 ?p] wf v
  have f: "take (length (grid generated_5x5)) (fst (display generated_5x5 ?p)) = grid generated_5x5"
    and t: "snd (display generated_5x5 ?p) = (rendered generated_5x5 ?p, None)"
    by blast+
  have len: "length (grid generated_5x5) = 5" by (simp add: generated_5x5_def)
  have "take 5 (fst (display generated_5x5 ?p)) = grid generated_5x5"
    using f unfolding len .
  then have "take 5 (fst (display generated_5x5 ?p))
               = [''#####'', ''#S  #'', ''### #'', ''#  E#'', ''#####'']"
    unfolding g .
  moreover have "snd (display generated_5x5 ?p)
               = ([''#####'', ''#Soo#'', ''###o#'', ''#  E#'', ''#####''], None)"
    using t unfolding r .
  ultimately have "take 5 (fst (display generated_5x5 ?p))
               = [''#####'', ''#S  #'', ''### #'', ''#  E#'', ''#####'']
     \<and> snd (display generated_5x5 ?p)
               = ([''#####'', ''#Soo#'', ''###o#'', ''#  E#'', ''#####''], None)"
    by (rule conjI)
  with wf sm la show ?thesis by blast
qed

text \<open>Without the bound on the path the text is not the one described. The path
  \<open>[(-1, -1)]\<close> puts an \<open>o\<close> at the cell \<open>(4, 4)\<close>, which is no coordinate of the
  path: a negative index counts from the end. The path \<open>[(5, 5)]\<close> raises
  \<^verbatim>\<open>IndexError\<close> and nothing is printed.\<close>

theorem display_path_outside_counterexample:
  "wf_maze generated_5x5
   \<and> snd (display generated_5x5 (Some [(-1, -1)]))
       = ([''#####'', ''#S  #'', ''### #'', ''#  E#'', ''####o''], None)
   \<and> (4, 4) \<notin> set (solution_marks generated_5x5 (Some [(-1, -1)]))
   \<and> snd (display generated_5x5 (Some [(-1, -1)])) \<noteq> (rendered generated_5x5 (Some [(-1, -1)]), None)
   \<and> snd (display generated_5x5 (Some [(5, 5)])) = ([], Some IndexError)"
proof -
  have "wf_maze generated_5x5" by code_simp
  moreover have a: "snd (display generated_5x5 (Some [(-1, -1)]))
       = ([''#####'', ''#S  #'', ''### #'', ''#  E#'', ''####o''], None)" by code_simp
  moreover have "(4, 4) \<notin> set (solution_marks generated_5x5 (Some [(-1, -1)]))" by code_simp
  moreover have r: "rendered generated_5x5 (Some [(-1, -1)])
       = [''#####'', ''#S  #'', ''### #'', ''#  E#'', ''#####'']" by code_simp
  moreover have "snd (display generated_5x5 (Some [(5, 5)])) = ([], Some IndexError)" by code_simp
  ultimately show ?thesis by simp
qed

section \<open>Reproducible runs\<close>

text \<open>
  The statements of the class run in a fixed order: every loop goes through a
  list or a \<^verbatim>\<open>range\<close>, the set \<^verbatim>\<open>visited\<close> and the dictionary \<^verbatim>\<open>parent_map\<close>
  are only asked for membership and looked up by key, never iterated. The one
  outside input is \<^verbatim>\<open>random.choice\<close>. So a run is a function of the dimensions
  and of the random source, and of the source only the part that is consumed
  matters: every call of \<^verbatim>\<open>random.choice\<close> is followed by the carving of a wall,
  so there are at most as many calls as the grid has cells.
\<close>

lemma gen_loop_choices:
  "(\<And>j. k \<le> j \<Longrightarrow> j < k + count_walls (grid m) \<Longrightarrow> rnd j = rnd' j)
     \<Longrightarrow> gen_loop rnd k m stack = gen_loop rnd' k m stack"
proof (induction rnd k m stack rule: gen_loop.induct)
  case (1 rnd k m)
  show ?case by simp
next
  case (2 rnd k m cur rest)
  show ?case
  proof (cases "unvisited_neighbors m cur gen_directions")
    case (Inl e)
    then show ?thesis by simp
  next
    case ns: (Inr ns)
    show ?thesis
    proof (cases "ns = []")
      case True
      have "gen_loop rnd k m rest = gen_loop rnd' k m rest"
        using ns True "2.prems" by (intro "2.IH"(2)) simp_all
      then show ?thesis using ns True by simp
    next
      case False
      define nxt where "nxt = random_choice rnd k ns"
      have mem: "nxt \<in> set ns" using False by (simp add: nxt_def random_choice_def)
      have wall: "grid_get (grid m) (fst nxt) (snd nxt) = Inr CHR ''#''"
        using unvisited_neighbors_wall[OF ns mem] by blast
      show ?thesis
      proof (cases "carve m cur nxt")
        case (Inl e)
        have lt: "0 < count_walls (grid m)"
        proof -
          obtain kk jj where "py_index (grid m) (fst nxt) = Some kk"
            "py_index (grid m ! kk) (snd nxt) = Some jj" "grid m ! kk ! jj = CHR ''#''"
            using wall by (auto simp: grid_get_def py_get_def split: option.splits sum.splits)
          then obtain g' where "grid_set (grid m) (fst nxt) (snd nxt) CHR '' '' = Inr g'"
            by (simp add: grid_set_def py_set_def)
          from grid_set_walls_lt[OF this wall] show ?thesis by simp
        qed
        then have "rnd k = rnd' k" using "2.prems"[of k] by simp
        then have same: "random_choice rnd' k ns = nxt" by (simp add: nxt_def random_choice_def)
        show ?thesis using ns False Inl same nxt_def by (simp add: Let_def)
      next
        case (Inr m')
        have lt: "count_walls (grid m') < count_walls (grid m)"
          using Inr wall by (rule carve_walls_lt)
        then have "rnd k = rnd' k" using "2.prems"[of k] by simp
        then have same: "random_choice rnd' k ns = nxt" by (simp add: nxt_def random_choice_def)
        have "gen_loop rnd (Suc k) m' (nxt # cur # rest) = gen_loop rnd' (Suc k) m' (nxt # cur # rest)"
        proof (rule "2.IH"(1)[OF ns False nxt_def Inr])
          fix j assume "Suc k \<le> j" "j < Suc k + count_walls (grid m')"
          then show "rnd j = rnd' j" using lt by (intro "2.prems") simp_all
        qed
        then show ?thesis using ns False Inr same nxt_def by (simp add: Let_def)
      qed
    qed
  qed
qed

lemma generate_choices:
  assumes "\<And>j. j < count_walls (grid m) \<Longrightarrow> rnd j = rnd' j"
  shows "generate rnd m = generate rnd' m"
proof (cases "grid_set (grid m) (fst (start m)) (snd (start m)) CHR '' ''")
  case (Inl e)
  then show ?thesis by (simp add: generate_def)
next
  case (Inr g0)
  have le: "count_walls g0 \<le> count_walls (grid m)" using Inr by (rule grid_set_walls_le)
  have "gen_loop rnd 0 (m\<lparr>grid := g0\<rparr>) [(fst (start m), snd (start m))]
      = gen_loop rnd' 0 (m\<lparr>grid := g0\<rparr>) [(fst (start m), snd (start m))]"
  proof (rule gen_loop_choices)
    fix j assume "j < 0 + count_walls (grid (m\<lparr>grid := g0\<rparr>))"
    then show "rnd j = rnd' j" using le by (intro assms) simp
  qed
  then show ?thesis using Inr by (simp add: generate_def Let_def)
qed

lemma count_walls_replicate:
  "count_walls (replicate h (replicate w CHR ''#'')) = h * w"
  by (simp add: count_walls_def sum_list_replicate)

lemma count_walls_Maze_init:
  "count_walls (grid (Maze_init w h)) \<le> nat (w + 1) * nat (h + 1)"
proof -
  have "count_walls (grid (Maze_init w h)) = nat (height (Maze_init w h)) * nat (width (Maze_init w h))"
    by (simp add: Maze_init_def Let_def count_walls_replicate)
  moreover have "nat (height (Maze_init w h)) \<le> nat (h + 1)" "nat (width (Maze_init w h)) \<le> nat (w + 1)"
    by (auto simp: Maze_init_def Let_def)
  ultimately show ?thesis by (simp add: mult.commute mult_le_mono)
qed

text \<open>The sequence of the example usage: construct, \<^verbatim>\<open>generate()\<close>, then
  \<^verbatim>\<open>solve()\<close>; the grid after generation and what \<^verbatim>\<open>solve\<close> returns.\<close>

definition generate_then_solve ::
  "(nat \<Rightarrow> nat) \<Rightarrow> int \<Rightarrow> int \<Rightarrow> error + (char list list \<times> (error + coord list option) option)" where
  "generate_then_solve rnd w h =
     (case generate rnd (Maze_init w h) of
        Inl e \<Rightarrow> Inl e
      | Inr m \<Rightarrow> Inr (grid m, solve m))"

text \<open>
  Claim C9. Two runs of \<^verbatim>\<open>generate()\<close> followed by \<^verbatim>\<open>solve()\<close> on mazes
  constructed with the same width and height, with random sources that give
  the same choices, produce the same grid and the same result of \<^verbatim>\<open>solve\<close>
  (or raise the same error). The sources need to agree only on their first
  \<open>(width + 1) * (height + 1)\<close> values: no run consumes more.
\<close>

theorem generate_solve_deterministic:
  assumes "\<forall>k < nat (w + 1) * nat (h + 1). rnd k = rnd' k"
  shows "generate rnd (Maze_init w h) = generate rnd' (Maze_init w h)
       \<and> generate_then_solve rnd w h = generate_then_solve rnd' w h"
proof -
  have "generate rnd (Maze_init w h) = generate rnd' (Maze_init w h)"
  proof (rule generate_choices)
    fix j assume "j < count_walls (grid (Maze_init w h))"
    then have "j < nat (w + 1) * nat (h + 1)" using count_walls_Maze_init[of w h] by simp
    then show "rnd j = rnd' j" using assms by blast
  qed
  then show ?thesis by (simp add: generate_then_solve_def)
qed

theorem generate_solve_deterministic_witness:
  "list_all (\<lambda>k. first_choice k = (if k < 36 then 0 else 3)) [0..<36]
   \<and> first_choice 36 \<noteq> (if (36::nat) < 36 then 0 else 3)
   \<and> generate (\<lambda>k. if k < 36 then 0 else 3) (Maze_init 5 5) = Inr generated_5x5
   \<and> generate_then_solve (\<lambda>k. if k < 36 then 0 else 3) 5 5
       = generate_then_solve first_choice 5 5
   \<and> generate_then_solve first_choice 5 5
       = Inr ([''#####'', ''#S  #'', ''### #'', ''#  E#'', ''#####''],
              Some (Inr (Some [(1, 1), (1, 2), (1, 3), (2, 3), (3, 3)])))"
proof -
  have a: "\<forall>k < nat (5 + 1) * nat (5 + 1). first_choice k = (if k < 36 then 0 else 3)"
    by (simp add: first_choice_def)
  have l: "list_all (\<lambda>k. first_choice k = (if k < 36 then 0 else 3)) [0..<36]"
    by (simp add: list_all_iff first_choice_def)
  have n: "first_choice 36 \<noteq> (if (36::nat) < 36 then 0 else 3)"
    by (simp add: first_choice_def)
  have s: "generate_then_solve first_choice 5 5
       = Inr ([''#####'', ''#S  #'', ''### #'', ''#  E#'', ''#####''],
              Some (Inr (Some [(1, 1), (1, 2), (1, 3), (2, 3), (3, 3)])))"
    by code_simp
  from generate_solve_deterministic[OF a]
  have "generate first_choice (Maze_init 5 5) = generate (\<lambda>k. if k < 36 then 0 else 3) (Maze_init 5 5)"
    and "generate_then_solve first_choice 5 5 = generate_then_solve (\<lambda>k. if k < 36 then 0 else 3) 5 5"
    by blast+
  then have "generate (\<lambda>k. if k < 36 then 0 else 3) (Maze_init 5 5) = Inr generated_5x5"
    and "generate_then_solve (\<lambda>k. if k < 36 then 0 else 3) 5 5 = generate_then_solve first_choice 5 5"
    by (simp_all add: generate_5x5)
  with l n s show ?thesis by blast
qed

end
